theory Spec2Isabelle
  imports Main "HOL-Library.Multiset" "HOL-Library.Char_ord" "HOL-Library.List_Lexorder"
begin

section \<open>Data model (src/App.tsx, interface Repository and the component state)\<close>

text \<open>
  Strings are lists of 8-bit characters, read as code units below 256 (Latin-1); this is
  exact for HTTP header values and for ASCII names. Numbers of the remote API (identifiers,
  counters) are integers. Three names of the source are taken in Isabelle: the fields
  \<^verbatim>\<open>id\<close> and \<^verbatim>\<open>private\<close> of an item are \<open>repo_id\<close> and \<open>is_private\<close> here, and the
  fields \<^verbatim>\<open>private\<close>, \<^verbatim>\<open>public\<close> and \<^verbatim>\<open>language\<close> of the filter state carry the
  prefix \<open>f_\<close>; \<^verbatim>\<open>String.prototype.includes\<close> is \<open>includes_str\<close>.
\<close>

datatype delete_status = Pending | Success | Error

text \<open>The fields of an item as the remote listing endpoint returns it.\<close>

record api_repository =
  repo_id :: int
  name :: string
  html_url :: string
  is_private :: bool
  description :: "string option"
  created_at :: string
  updated_at :: string
  language :: "string option"
  stargazers_count :: int
  forks_count :: int

text \<open>
  \<^verbatim>\<open>interface Repository\<close>: the remote fields plus the three optional, UI-local ones
  (\<^verbatim>\<open>selected?\<close>, \<^verbatim>\<open>deleteStatus?\<close>, \<^verbatim>\<open>errorMessage?\<close>); \<open>None\<close> is JavaScript's
  \<^verbatim>\<open>undefined\<close>.
\<close>

record repository = api_repository +
  selected :: "bool option"
  deleteStatus :: "delete_status option"
  errorMessage :: "string option"

datatype sort_key = Updated | Created | Name | Stars | Forks

record filter_config =
  f_private :: bool
  f_public :: bool
  sortBy :: sort_key
  f_language :: string

datatype toast = ToastSuccess string | ToastError string

datatype request = GetUser | GetUserRepos | DeleteRepo string string

record app_state =
  token :: string
  repositories :: "repository list"
  filteredRepositories :: "repository list"
  loading :: bool
  error :: string
  success :: string
  deleteInProgress :: bool
  searchTerm :: string
  deleteConfirmationOpen :: bool
  filters :: filter_config
  languages :: "string list"
  toasts :: "toast list"
  calls :: "request list"

text \<open>
  \<open>toasts\<close> logs the calls of \<^verbatim>\<open>toast.success\<close> and \<^verbatim>\<open>toast.error\<close>, \<open>calls\<close> logs
  the requests issued through \<^verbatim>\<open>octokit.request\<close>, both in the order they are made.
\<close>

text \<open>JavaScript truthiness of the optional flag: \<^verbatim>\<open>repo.selected\<close> in a condition.\<close>

definition is_selected :: "repository \<Rightarrow> bool" where
  "is_selected repo = (selected repo = Some True)"

section \<open>String primitives of the host language\<close>

text \<open>\<^verbatim>\<open>String.prototype.toLowerCase\<close> on code units below 256.\<close>

definition lower_char :: "char \<Rightarrow> char" where
  "lower_char c =
     (let n = (of_char c :: nat)
      in if (65 \<le> n \<and> n \<le> 90) \<or> (192 \<le> n \<and> n \<le> 222 \<and> n \<noteq> 215)
         then char_of (n + 32) else c)"

definition toLowerCase :: "string \<Rightarrow> string" where
  "toLowerCase s = map lower_char s"

text \<open>\<^verbatim>\<open>s.startsWith(q)\<close> and \<^verbatim>\<open>s.includes(q)\<close>.\<close>

fun startsWith :: "string \<Rightarrow> string \<Rightarrow> bool" where
  "startsWith s [] = True"
| "startsWith [] (q # qs) = False"
| "startsWith (c # cs) (q # qs) = (c = q \<and> startsWith cs qs)"

fun includes_str :: "string \<Rightarrow> string \<Rightarrow> bool" where
  "includes_str [] q = (q = [])"
| "includes_str (c # cs) q = (startsWith (c # cs) q \<or> includes_str cs q)"

section \<open>Filter/sort engine (filterRepositories)\<close>

text \<open>
  Two functions of the host are parameters: \<^verbatim>\<open>String.prototype.localeCompare\<close> (the
  locale's collation) and \<^verbatim>\<open>new Date(s).getTime()\<close>, which is \<^verbatim>\<open>NaN\<close> (here \<open>None\<close>)
  on a string that is not a date.
\<close>

record host =
  localeCompare :: "string \<Rightarrow> string \<Rightarrow> int"
  getTime :: "string \<Rightarrow> int option"

text \<open>The comparator passed to \<^verbatim>\<open>filtered.sort\<close>; \<open>None\<close> is a \<^verbatim>\<open>NaN\<close> result.\<close>

definition sub_time :: "int option \<Rightarrow> int option \<Rightarrow> int option" where
  "sub_time x y = (case x of None \<Rightarrow> None | Some a \<Rightarrow> (case y of None \<Rightarrow> None | Some b \<Rightarrow> Some (a - b)))"

fun compareRepos :: "host \<Rightarrow> sort_key \<Rightarrow> repository \<Rightarrow> repository \<Rightarrow> int option" where
  "compareRepos h Name a b = Some (localeCompare h (name a) (name b))"
| "compareRepos h Created a b = sub_time (getTime h (created_at b)) (getTime h (created_at a))"
| "compareRepos h Updated a b = sub_time (getTime h (updated_at b)) (getTime h (updated_at a))"
| "compareRepos h Stars a b = Some (stargazers_count b - stargazers_count a)"
| "compareRepos h Forks a b = Some (forks_count b - forks_count a)"

text \<open>
  \<^verbatim>\<open>Array.prototype.sort(comparefn)\<close>: the language standard makes the sort stable and
  reads a \<^verbatim>\<open>NaN\<close> comparison as \<open>0\<close>. It is modelled as a stable insertion sort, which
  is what every conforming sort computes when the comparator is consistent. When it is
  not (a timestamp that does not parse makes some comparisons \<^verbatim>\<open>NaN\<close>), the standard
  leaves the order to the engine and this model does not say what it is: then only the
  set of the sorted items is meant, and every statement about their order below assumes
  a consistent comparator.
\<close>

definition cmp_value :: "int option \<Rightarrow> int" where
  "cmp_value v = (case v of None \<Rightarrow> 0 | Some n \<Rightarrow> n)"

fun insert_js :: "('a \<Rightarrow> 'a \<Rightarrow> int option) \<Rightarrow> 'a \<Rightarrow> 'a list \<Rightarrow> 'a list" where
  "insert_js c x [] = [x]"
| "insert_js c x (y # ys) = (if cmp_value (c x y) > 0 then y # insert_js c x ys else x # y # ys)"

definition sort_js :: "('a \<Rightarrow> 'a \<Rightarrow> int option) \<Rightarrow> 'a list \<Rightarrow> 'a list" where
  "sort_js c xs = foldr (insert_js c) xs []"

definition matchesSearch :: "string \<Rightarrow> repository \<Rightarrow> bool" where
  "matchesSearch term repo =
     (includes_str (toLowerCase (name repo)) (toLowerCase term) \<or>
      (case description repo of None \<Rightarrow> False
       | Some d \<Rightarrow> includes_str (toLowerCase d) (toLowerCase term)))"

definition searchStage :: "string \<Rightarrow> repository list \<Rightarrow> repository list" where
  "searchStage term filtered = (if term \<noteq> [] then filter (matchesSearch term) filtered else filtered)"

definition visibilityStage :: "filter_config \<Rightarrow> repository list \<Rightarrow> repository list" where
  "visibilityStage f filtered =
     (if f_private f \<and> \<not> f_public f then filter (\<lambda>repo. is_private repo) filtered
      else if f_public f \<and> \<not> f_private f then filter (\<lambda>repo. \<not> is_private repo) filtered
      else filtered)"

definition languageStage :: "filter_config \<Rightarrow> repository list \<Rightarrow> repository list" where
  "languageStage f filtered =
     (if f_language f \<noteq> [] then filter (\<lambda>repo. language repo = Some (f_language f)) filtered
      else filtered)"

text \<open>The value \<^verbatim>\<open>filterRepositories\<close> computes from the three inputs it reads.\<close>

definition derive :: "host \<Rightarrow> repository list \<Rightarrow> string \<Rightarrow> filter_config \<Rightarrow> repository list" where
  "derive h repos term f =
     sort_js (compareRepos h (sortBy f)) (languageStage f (visibilityStage f (searchStage term repos)))"

definition filterRepositories :: "host \<Rightarrow> app_state \<Rightarrow> app_state" where
  "filterRepositories h st =
     st\<lparr>filteredRepositories := derive h (repositories st) (searchTerm st) (filters st)\<rparr>"

section \<open>Selection manager\<close>

definition toggleSelectAll :: "bool \<Rightarrow> app_state \<Rightarrow> app_state" where
  "toggleSelectAll checked st =
     st\<lparr>repositories := map (\<lambda>repo. repo\<lparr>selected := Some checked\<rparr>) (repositories st)\<rparr>"

definition toggleRepository :: "int \<Rightarrow> app_state \<Rightarrow> app_state" where
  "toggleRepository i st =
     st\<lparr>repositories :=
          map (\<lambda>repo. if repo_id repo = i then repo\<lparr>selected := Some (\<not> is_selected repo)\<rparr> else repo)
            (repositories st)\<rparr>"

text \<open>
  The row of an item in the list view: the checkbox is rendered from the filtered view,
  \<^verbatim>\<open>disabled\<close> while the row's \<^verbatim>\<open>deleteStatus\<close> is \<^verbatim>\<open>'pending'\<close>, and its
  \<^verbatim>\<open>onChange\<close> calls \<^verbatim>\<open>toggleRepository(repo.id)\<close>. A disabled checkbox fires no event,
  and an item without a row has no checkbox.
\<close>

definition checkboxChange :: "int \<Rightarrow> app_state \<Rightarrow> app_state" where
  "checkboxChange i st =
     (case find (\<lambda>repo. repo_id repo = i) (filteredRepositories st) of
        None \<Rightarrow> st
      | Some repo \<Rightarrow>
          if deleteStatus repo = Some Pending then st else toggleRepository (repo_id repo) st)"

section \<open>Available languages (the effect on \<^verbatim>\<open>repositories\<close>)\<close>

fun non_null :: "'a option list \<Rightarrow> 'a list" where
  "non_null [] = []"
| "non_null (None # xs) = non_null xs"
| "non_null (Some x # xs) = x # non_null xs"

text \<open>\<^verbatim>\<open>Array.from(new Set(xs))\<close>: the first occurrence of each value, in insertion order.\<close>

definition array_from_set :: "'a list \<Rightarrow> 'a list" where
  "array_from_set xs = fold (\<lambda>x acc. if x \<in> set acc then acc else acc @ [x]) xs []"

text \<open>
  \<^verbatim>\<open>.sort()\<close> without a comparator orders strings by their code units, which is the
  lexicographic order of \<open>string\<close>.
\<close>

definition uniqueLanguages :: "repository list \<Rightarrow> string list" where
  "uniqueLanguages repos = sort (array_from_set (non_null (map language repos)))"

definition languagesEffect :: "app_state \<Rightarrow> app_state" where
  "languagesEffect st =
     (if length (repositories st) > 0 then st\<lparr>languages := uniqueLanguages (repositories st)\<rparr>
      else st)"

text \<open>The two effects that depend on \<^verbatim>\<open>repositories\<close>, run after the catalog has changed.\<close>

definition runEffects :: "host \<Rightarrow> app_state \<Rightarrow> app_state" where
  "runEffects h st = languagesEffect (filterRepositories h st)"

section \<open>The remote API\<close>

text \<open>
  A rejected request: \<^verbatim>\<open>err.status\<close>, \<^verbatim>\<open>err.message\<close> and
  \<^verbatim>\<open>err.response?.data?.message\<close>, each possibly \<^verbatim>\<open>undefined\<close>.
\<close>

record js_error =
  err_status :: "int option"
  err_message :: "string option"
  err_response_message :: "string option"

record user_response =
  x_oauth_scopes :: "string option"
  login :: string

text \<open>
  The remote side answers each request as a function of the requests issued before it, so
  that a credential or an item may change between two calls.
\<close>

record remote =
  get_user :: "request list \<Rightarrow> js_error + user_response"
  get_user_repos :: "request list \<Rightarrow> js_error + api_repository list"
  delete_repo :: "request list \<Rightarrow> string \<Rightarrow> string \<Rightarrow> js_error + unit"

text \<open>\<^verbatim>\<open>x || d\<close> on a string that may be \<^verbatim>\<open>undefined\<close>: the empty string is falsy too.\<close>

definition or_default :: "string option \<Rightarrow> string \<Rightarrow> string" where
  "or_default x d = (case x of None \<Rightarrow> d | Some s \<Rightarrow> if s = [] then d else s)"

definition new_Error :: "string \<Rightarrow> js_error" where
  "new_Error m = \<lparr>err_status = None, err_message = Some m, err_response_message = None\<rparr>"

text \<open>\<^verbatim>\<open>err.message\<close> of an error made by \<^verbatim>\<open>new Error(m)\<close>, which always has one.\<close>

definition message_text :: "js_error \<Rightarrow> string" where
  "message_text err = (case err_message err of None \<Rightarrow> [] | Some m \<Rightarrow> m)"

fun split_comma :: "string \<Rightarrow> string list" where
  "split_comma [] = [[]]"
| "split_comma (c # cs) =
     (if c = CHR '','' then [] # split_comma cs
      else (case split_comma cs of [] \<Rightarrow> [[c]] | w # ws \<Rightarrow> (c # w) # ws))"

definition is_space :: "char \<Rightarrow> bool" where
  "is_space c = (let n = (of_char c :: nat) in (9 \<le> n \<and> n \<le> 13) \<or> n = 32 \<or> n = 160)"

definition trim :: "string \<Rightarrow> string" where
  "trim s = rev (dropWhile is_space (rev (dropWhile is_space s)))"

fun digits :: "nat \<Rightarrow> string" where
  "digits n = (if n < 10 then [char_of (48 + n)] else digits (n div 10) @ [char_of (48 + n mod 10)])"

declare digits.simps [simp del]

section \<open>Credential verifier (verifyTokenPermissions)\<close>

definition hasDeleteScope :: "user_response \<Rightarrow> bool" where
  "hasDeleteScope response =
     (let scopes = or_default (x_oauth_scopes response) []
      in ''delete_repo'' \<in> set (map trim (split_comma scopes)))"

text \<open>
  The result is the login (\<open>Inr\<close>) or the error thrown (\<open>Inl\<close>). The error of a missing
  scope is thrown inside the \<^verbatim>\<open>try\<close> block, so it passes through the \<^verbatim>\<open>catch\<close> as well.
\<close>

definition verifyTokenPermissions :: "remote \<Rightarrow> request list \<Rightarrow> js_error + string" where
  "verifyTokenPermissions rem hist =
     (let attempt =
        (case get_user rem hist of
           Inl err \<Rightarrow> Inl err
         | Inr response \<Rightarrow>
             if \<not> hasDeleteScope response
             then Inl (new_Error ''Token does not have delete_repo scope. Please generate a new token with the delete_repo permission.'')
             else Inr (login response))
      in case attempt of
           Inr l \<Rightarrow> Inr l
         | Inl err \<Rightarrow>
             if err_status err = Some 401
             then Inl (new_Error ''Invalid token. Please check your token and try again.'')
             else Inl (new_Error (or_default (err_message err)
                    ''Failed to verify token permissions. Please ensure your token is valid and has the delete_repo scope.'')))"

section \<open>Catalog fetcher (fetchRepositories)\<close>

text \<open>\<^verbatim>\<open>{ ...repo, selected: false }\<close> on an item of the response.\<close>

definition spread_selected_false :: "api_repository \<Rightarrow> repository" where
  "spread_selected_false repo =
     \<lparr>repo_id = repo_id repo, name = name repo, html_url = html_url repo,
      is_private = is_private repo, description = description repo,
      created_at = created_at repo, updated_at = updated_at repo, language = language repo,
      stargazers_count = stargazers_count repo, forks_count = forks_count repo,
      selected = Some False, deleteStatus = None, errorMessage = None\<rparr>"

text \<open>The \<^verbatim>\<open>catch\<close> and \<^verbatim>\<open>finally\<close> blocks.\<close>

definition fetch_failed :: "js_error \<Rightarrow> app_state \<Rightarrow> app_state" where
  "fetch_failed err st =
     st\<lparr>toasts := toasts st @ [ToastError (or_default (err_message err) ''Failed to fetch repositories'')],
        error := or_default (err_message err) ''Failed to fetch repositories. Please check your token.'',
        repositories := [],
        loading := False\<rparr>"

definition fetchRepositories :: "remote \<Rightarrow> app_state \<Rightarrow> app_state" where
  "fetchRepositories rem st0 =
     (let st = st0\<lparr>loading := True, error := [], success := [], calls := calls st0 @ [GetUser]\<rparr>
      in case verifyTokenPermissions rem (calls st0) of
           Inl err \<Rightarrow> fetch_failed err st
         | Inr username \<Rightarrow>
             (let st1 = st\<lparr>calls := calls st @ [GetUserRepos]\<rparr>
              in case get_user_repos rem (calls st) of
                   Inl err \<Rightarrow> fetch_failed err st1
                 | Inr data \<Rightarrow>
                     st1\<lparr>repositories := map spread_selected_false data,
                         toasts := toasts st1 @
                           [ToastSuccess (''Successfully loaded '' @ digits (length data)
                              @ '' repositories for '' @ username)],
                         loading := False\<rparr>))"

section \<open>Batch deletion orchestrator (handleDeleteSelected, confirmDelete)\<close>

definition handleDeleteSelected :: "app_state \<Rightarrow> app_state" where
  "handleDeleteSelected st =
     (let selectedRepos = filter is_selected (repositories st)
      in if length selectedRepos = 0
         then st\<lparr>toasts := toasts st @ [ToastError ''Please select repositories to delete'']\<rparr>
         else st\<lparr>deleteConfirmationOpen := True\<rparr>)"

text \<open>The first \<^verbatim>\<open>setRepositories\<close> of \<^verbatim>\<open>confirmDelete\<close>.\<close>

definition markPending :: "app_state \<Rightarrow> app_state" where
  "markPending st =
     st\<lparr>repositories :=
          map (\<lambda>repo. if is_selected repo then repo\<lparr>deleteStatus := Some Pending\<rparr> else repo)
            (repositories st)\<rparr>"

text \<open>
  The \<^verbatim>\<open>for ... of\<close> loop over \<^verbatim>\<open>selectedRepos\<close>, with the two counters. Each request is
  awaited before the next iteration starts; the pause of one second after a success does
  not change the state and is left out.
\<close>

fun deleteLoop :: "remote \<Rightarrow> string \<Rightarrow> repository list \<Rightarrow> app_state \<times> nat \<times> nat \<Rightarrow> app_state \<times> nat \<times> nat" where
  "deleteLoop rem username [] acc = acc"
| "deleteLoop rem username (repo # rest) (st, successCount, failureCount) =
     (case delete_repo rem (calls st) username (name repo) of
        Inr u \<Rightarrow>
          deleteLoop rem username rest
            (st\<lparr>calls := calls st @ [DeleteRepo username (name repo)],
                repositories :=
                  map (\<lambda>r. if repo_id r = repo_id repo then r\<lparr>deleteStatus := Some Success\<rparr> else r)
                    (repositories st),
                toasts := toasts st @ [ToastSuccess (''Deleted '' @ name repo)]\<rparr>,
             successCount + 1, failureCount)
      | Inl err \<Rightarrow>
          (let errorMessage = or_default (err_response_message err) ''Unknown error occurred''
           in deleteLoop rem username rest
                (st\<lparr>calls := calls st @ [DeleteRepo username (name repo)],
                    repositories :=
                      map (\<lambda>r. if repo_id r = repo_id repo
                                then r\<lparr>deleteStatus := Some Error, errorMessage := Some errorMessage\<rparr>
                                else r)
                        (repositories st),
                    toasts := toasts st @ [ToastError (''Failed to delete '' @ name repo)]\<rparr>,
                 successCount, failureCount + 1)))"

text \<open>The summary after the loop.\<close>

definition finishBatch :: "remote \<Rightarrow> app_state \<times> nat \<times> nat \<Rightarrow> app_state" where
  "finishBatch rem acc =
     (case acc of (st, successCount, failureCount) \<Rightarrow>
        if failureCount > 0
        then st\<lparr>error := ''Failed to delete '' @ digits failureCount @ '' repositories. ''
                    @ digits successCount @ '' repositories were deleted successfully.''\<rparr>
        else fetchRepositories rem (st\<lparr>success := ''All selected repositories were deleted successfully!''\<rparr>))"

definition confirmDelete :: "remote \<Rightarrow> app_state \<Rightarrow> app_state" where
  "confirmDelete rem st0 =
     (let st = st0\<lparr>deleteConfirmationOpen := False, deleteInProgress := True,
                  error := [], success := [], calls := calls st0 @ [GetUser]\<rparr>;
          selectedRepos = filter is_selected (repositories st0)
      in case verifyTokenPermissions rem (calls st0) of
           Inl err \<Rightarrow>
             st\<lparr>error := message_text err,
                toasts := toasts st @ [ToastError (message_text err)],
                deleteInProgress := False\<rparr>
         | Inr username \<Rightarrow>
             (finishBatch rem (deleteLoop rem username selectedRepos (markPending st, 0, 0)))
               \<lparr>deleteInProgress := False\<rparr>)"

section \<open>Reading a batch run\<close>

text \<open>
  Auxiliary functions for stating what a run of \<open>confirmDelete\<close> did: which requests are
  destructive, what the remote side answered to the request for each selected item, and
  what such an answer makes of an item.
\<close>

fun is_delete :: "request \<Rightarrow> bool" where
  "is_delete (DeleteRepo owner repo) = True"
| "is_delete GetUser = False"
| "is_delete GetUserRepos = False"

fun outcomes :: "remote \<Rightarrow> string \<Rightarrow> request list \<Rightarrow> repository list \<Rightarrow> (js_error + unit) list" where
  "outcomes rem username hist [] = []"
| "outcomes rem username hist (repo # rest) =
     delete_repo rem hist username (name repo)
       # outcomes rem username (hist @ [DeleteRepo username (name repo)]) rest"





text \<open>
  The state and the two counters when the loop of \<open>confirmDelete\<close> ends, and the answers
  the loop received, for a run whose verification returned \<open>username\<close>.
\<close>

definition batchLoop :: "remote \<Rightarrow> string \<Rightarrow> app_state \<Rightarrow> app_state \<times> nat \<times> nat" where
  "batchLoop rem username st0 =
     deleteLoop rem username (filter is_selected (repositories st0))
       (markPending (st0\<lparr>deleteConfirmationOpen := False, deleteInProgress := True,
                          error := [], success := [], calls := calls st0 @ [GetUser]\<rparr>), 0, 0)"

definition batchOutcomes :: "remote \<Rightarrow> string \<Rightarrow> app_state \<Rightarrow> (js_error + unit) list" where
  "batchOutcomes rem username st0 =
     outcomes rem username (calls st0 @ [GetUser]) (filter is_selected (repositories st0))"


section \<open>Reading the filter engine\<close>

text \<open>
  The rules of the filter engine in the specification's words: the query is a
  case-insensitive substring of a text, an item passes the visibility rule and the
  language rule of a configuration, and an item passes all three stages.
\<close>

definition ci_substring :: "string \<Rightarrow> string \<Rightarrow> bool" where
  "ci_substring q s = (\<exists>pre suf. toLowerCase s = pre @ toLowerCase q @ suf)"

definition visibility_ok :: "filter_config \<Rightarrow> repository \<Rightarrow> bool" where
  "visibility_ok f r =
     ((f_private f \<and> \<not> f_public f \<longrightarrow> is_private r) \<and> (f_public f \<and> \<not> f_private f \<longrightarrow> \<not> is_private r))"

definition language_ok :: "filter_config \<Rightarrow> repository \<Rightarrow> bool" where
  "language_ok f r = (f_language f = [] \<or> language r = Some (f_language f))"

definition passes :: "string \<Rightarrow> filter_config \<Rightarrow> repository \<Rightarrow> bool" where
  "passes term f r = ((term = [] \<or> matchesSearch term r) \<and> visibility_ok f r \<and> language_ok f r)"

text \<open>
  The sort rule in the specification's words. The comparison of names is the host's
  \<open>localeCompare\<close>, which the language standard requires to be a consistent comparator;
  the time keys need timestamps the host can parse. \<open>in_order\<close> says that one item may
  stand before another under a key (names ascending, the other four keys descending),
  \<open>same_key\<close> that two items compare equal under it.
\<close>

definition consistent_compare :: "(string \<Rightarrow> string \<Rightarrow> int) \<Rightarrow> bool" where
  "consistent_compare c =
     ((\<forall>a b. (c a b > 0) = (c b a < 0))
      \<and> (\<forall>a b d. c a b \<le> 0 \<and> c b d \<le> 0 \<longrightarrow> c a d \<le> 0))"

fun sort_valid :: "host \<Rightarrow> sort_key \<Rightarrow> repository list \<Rightarrow> bool" where
  "sort_valid h Name repos = consistent_compare (localeCompare h)"
| "sort_valid h Created repos = (\<forall>r \<in> set repos. getTime h (created_at r) \<noteq> None)"
| "sort_valid h Updated repos = (\<forall>r \<in> set repos. getTime h (updated_at r) \<noteq> None)"
| "sort_valid h Stars repos = True"
| "sort_valid h Forks repos = True"

fun in_order :: "host \<Rightarrow> sort_key \<Rightarrow> repository \<Rightarrow> repository \<Rightarrow> bool" where
  "in_order h Name a b = (localeCompare h (name a) (name b) \<le> 0)"
| "in_order h Created a b = (the (getTime h (created_at a)) \<ge> the (getTime h (created_at b)))"
| "in_order h Updated a b = (the (getTime h (updated_at a)) \<ge> the (getTime h (updated_at b)))"
| "in_order h Stars a b = (stargazers_count a \<ge> stargazers_count b)"
| "in_order h Forks a b = (forks_count a \<ge> forks_count b)"

fun same_key :: "host \<Rightarrow> sort_key \<Rightarrow> repository \<Rightarrow> repository \<Rightarrow> bool" where
  "same_key h Name a b = (localeCompare h (name a) (name b) = 0)"
| "same_key h Created a b = (the (getTime h (created_at a)) = the (getTime h (created_at b)))"
| "same_key h Updated a b = (the (getTime h (updated_at a)) = the (getTime h (updated_at b)))"
| "same_key h Stars a b = (stargazers_count a = stargazers_count b)"
| "same_key h Forks a b = (forks_count a = forks_count b)"

section \<open>The earlier version of the component\<close>

text \<open>
  A second source file holds an earlier version of the same component. It has no
  confirmation view and no toasts: \<^verbatim>\<open>handleDeleteSelected\<close> asks \<^verbatim>\<open>window.confirm\<close> (here
  the argument \<open>confirmed\<close>) and then runs the batch itself, and messages go to the
  \<^verbatim>\<open>error\<close> and \<^verbatim>\<open>success\<close> banners. The verifier, the selection functions and the shape
  of the loop are the same.
\<close>

definition fetchRepositories_legacy :: "remote \<Rightarrow> app_state \<Rightarrow> app_state" where
  "fetchRepositories_legacy rem st0 =
     (let st = st0\<lparr>loading := True, error := [], success := [], calls := calls st0 @ [GetUser]\<rparr>
      in case verifyTokenPermissions rem (calls st0) of
           Inl err \<Rightarrow>
             st\<lparr>error := or_default (err_message err) ''Failed to fetch repositories. Please check your token.'',
                repositories := [], loading := False\<rparr>
         | Inr username \<Rightarrow>
             (let st1 = st\<lparr>calls := calls st @ [GetUserRepos]\<rparr>
              in case get_user_repos rem (calls st) of
                   Inl err \<Rightarrow>
                     st1\<lparr>error := or_default (err_message err)
                                   ''Failed to fetch repositories. Please check your token.'',
                         repositories := [], loading := False\<rparr>
                 | Inr data \<Rightarrow>
                     st1\<lparr>repositories := map spread_selected_false data,
                         success := ''Successfully loaded '' @ digits (length data)
                                      @ '' repositories for '' @ username,
                         loading := False\<rparr>))"

fun deleteLoop_legacy :: "remote \<Rightarrow> string \<Rightarrow> repository list \<Rightarrow> app_state \<times> nat \<times> nat \<Rightarrow> app_state \<times> nat \<times> nat" where
  "deleteLoop_legacy rem username [] acc = acc"
| "deleteLoop_legacy rem username (repo # rest) (st, successCount, failureCount) =
     (case delete_repo rem (calls st) username (name repo) of
        Inr u \<Rightarrow>
          deleteLoop_legacy rem username rest
            (st\<lparr>calls := calls st @ [DeleteRepo username (name repo)],
                repositories :=
                  map (\<lambda>r. if repo_id r = repo_id repo then r\<lparr>deleteStatus := Some Success\<rparr> else r)
                    (repositories st)\<rparr>,
             successCount + 1, failureCount)
      | Inl err \<Rightarrow>
          (let errorMessage = or_default (err_response_message err) ''Unknown error occurred''
           in deleteLoop_legacy rem username rest
                (st\<lparr>calls := calls st @ [DeleteRepo username (name repo)],
                    repositories :=
                      map (\<lambda>r. if repo_id r = repo_id repo
                                then r\<lparr>deleteStatus := Some Error, errorMessage := Some errorMessage\<rparr>
                                else r)
                        (repositories st)\<rparr>,
                 successCount, failureCount + 1)))"

definition handleDeleteSelected_legacy :: "remote \<Rightarrow> bool \<Rightarrow> app_state \<Rightarrow> app_state" where
  "handleDeleteSelected_legacy rem confirmed st0 =
     (let selectedRepos = filter is_selected (repositories st0)
      in if length selectedRepos = 0 then st0\<lparr>error := ''Please select repositories to delete''\<rparr>
         else if \<not> confirmed then st0
         else
           (let st = st0\<lparr>deleteInProgress := True, error := [], success := [],
                        calls := calls st0 @ [GetUser]\<rparr>
            in case verifyTokenPermissions rem (calls st0) of
                 Inl err \<Rightarrow> st\<lparr>error := message_text err, deleteInProgress := False\<rparr>
               | Inr username \<Rightarrow>
                   (case deleteLoop_legacy rem username selectedRepos (markPending st, 0, 0) of
                      (st2, successCount, failureCount) \<Rightarrow>
                        (if failureCount > 0
                         then st2\<lparr>error := ''Failed to delete '' @ digits failureCount @ '' repositories. ''
                                   @ digits successCount @ '' repositories were deleted successfully.''\<rparr>
                         else fetchRepositories_legacy rem
                                (st2\<lparr>success := ''All selected repositories were deleted successfully!''\<rparr>))
                          \<lparr>deleteInProgress := False\<rparr>)))"

section \<open>Example data\<close>

definition ex_api :: "int \<Rightarrow> string \<Rightarrow> bool \<Rightarrow> string option \<Rightarrow> string option \<Rightarrow> int \<Rightarrow> api_repository" where
  "ex_api i nm priv desc lang stars =
     \<lparr>repo_id = i, name = nm, html_url = ''https://github.com/octo/'' @ nm, is_private = priv,
      description = desc, created_at = ''2024-01-01T00:00:00Z'', updated_at = ''2024-06-01T00:00:00Z'',
      language = lang, stargazers_count = stars, forks_count = 0\<rparr>"

definition ex_repo :: "int \<Rightarrow> string \<Rightarrow> bool \<Rightarrow> string option \<Rightarrow> string option \<Rightarrow> int \<Rightarrow> repository" where
  "ex_repo i nm priv desc lang stars = spread_selected_false (ex_api i nm priv desc lang stars)"

definition ex_alpha :: repository where
  "ex_alpha = ex_repo 1 ''alpha'' False (Some ''First tool'') (Some ''TypeScript'') 3"

definition ex_beta :: repository where
  "ex_beta = ex_repo 2 ''beta'' True None (Some ''Go'') 1"

definition ex_gamma :: repository where
  "ex_gamma = ex_repo 3 ''gamma'' False (Some ''Parser for XML files'') (Some ''TypeScript'') 2"

definition ex_host :: host where
  "ex_host =
     \<lparr>localeCompare = (\<lambda>a b. if a < b then - 1 else if b < a then 1 else 0),
      getTime = map_of [(''2024-01-01T00:00:00Z'', 1704067200000),
                        (''2024-06-01T00:00:00Z'', 1717200000000)]\<rparr>"

definition ex_filters :: filter_config where
  "ex_filters = \<lparr>f_private = False, f_public = False, sortBy = Updated, f_language = []\<rparr>"

definition ex_state :: "repository list \<Rightarrow> app_state" where
  "ex_state repos =
     \<lparr>token = ''ghp_example'', repositories = repos, filteredRepositories = [], loading = False,
      error = [], success = [], deleteInProgress = False, searchTerm = [],
      deleteConfirmationOpen = False, filters = ex_filters, languages = [], toasts = [], calls = []\<rparr>"

definition ex_pending_state :: app_state where
  "ex_pending_state =
     filterRepositories ex_host
       (ex_state [ex_alpha, ex_beta\<lparr>selected := Some True, deleteStatus := Some Pending\<rparr>])"

definition ex_forbidden :: js_error where
  "ex_forbidden = \<lparr>err_status = Some 403, err_message = Some ''Forbidden'',
                    err_response_message = Some ''Must have admin rights to Repository.''\<rparr>"

text \<open>
  A remote side that refuses to delete \<open>gamma\<close> and lists the items not deleted so far.
\<close>

definition ex_remote :: remote where
  "ex_remote =
     \<lparr>get_user = (\<lambda>hist. Inr \<lparr>x_oauth_scopes = Some ''repo, delete_repo'', login = ''octo''\<rparr>),
      get_user_repos = (\<lambda>hist. Inr (filter (\<lambda>r. name r = ''gamma'' \<or> DeleteRepo ''octo'' (name r) \<notin> set hist)
                          [ex_api 1 ''alpha'' False (Some ''First tool'') (Some ''TypeScript'') 3,
                           ex_api 2 ''beta'' True None (Some ''Go'') 1,
                           ex_api 3 ''gamma'' False (Some ''Parser for XML files'') (Some ''TypeScript'') 2])),
      delete_repo = (\<lambda>hist owner repo. if repo = ''gamma'' then Inl ex_forbidden else Inr ())\<rparr>"

definition ex_remote_unauthorized :: remote where
  "ex_remote_unauthorized =
     \<lparr>get_user = (\<lambda>hist. Inl \<lparr>err_status = Some 401, err_message = Some ''Bad credentials'',
                                  err_response_message = Some ''Bad credentials''\<rparr>),
      get_user_repos = (\<lambda>hist. Inr []),
      delete_repo = (\<lambda>hist owner repo. Inr ())\<rparr>"

definition ex_two_selected :: app_state where
  "ex_two_selected = toggleRepository 1 (toggleRepository 2 (ex_state [ex_alpha, ex_beta, ex_gamma]))"




definition ex_loaded :: app_state where
  "ex_loaded = runEffects ex_host (fetchRepositories ex_remote (ex_state []))"

definition ex_fetch_failed :: app_state where
  "ex_fetch_failed = runEffects ex_host (fetchRepositories ex_remote_unauthorized ex_loaded)"

definition ex_named :: "repository list" where
  "ex_named = [ex_repo 11 ''b'' False None None 3, ex_repo 12 ''a'' False None None 1,
               ex_repo 13 ''c'' False None None 2]"

definition ex_ties :: "repository list" where
  "ex_ties = [ex_repo 21 ''x'' False None None 5, ex_repo 22 ''y'' False None None 7,
              ex_repo 23 ''z'' False None None 5]"



text \<open>
  A host whose comparison of names is the browsers' default collation on ASCII letters:
  letters compare without regard to case first, and of two names that differ in case
  only the one with the lower-case letter stands first. In it \<^verbatim>\<open>"app".localeCompare("Build")\<close>
  is negative, as in the browsers.
\<close>

definition ex_collating_host :: host where
  "ex_collating_host =
     \<lparr>localeCompare =
        (\<lambda>a b. if toLowerCase a < toLowerCase b then - 1
                else if toLowerCase b < toLowerCase a then 1
                else if b < a then - 1 else if a < b then 1 else 0),
      getTime = map_of [(''2024-01-01T00:00:00Z'', 1704067200000),
                        (''2024-06-01T00:00:00Z'', 1717200000000)]\<rparr>"

definition ex_mixed_case :: "repository list" where
  "ex_mixed_case = [ex_repo 31 ''Build'' False None None 0, ex_repo 32 ''app'' False None None 0]"

section \<open>Basic facts about the engine\<close>

lemma set_insert_js: "set (insert_js c x ys) = insert x (set ys)"
  by (induction ys) auto

lemma set_sort_js: "set (sort_js c xs) = set xs"
  by (induction xs) (auto simp: sort_js_def set_insert_js)

lemma insert_js_map:
  assumes "\<And>a b. c (g a) (g b) = c a b"
  shows "insert_js c (g x) (map g ys) = map g (insert_js c x ys)"
  by (induction ys) (auto simp: assms)

lemma sort_js_map:
  assumes "\<And>a b. c (g a) (g b) = c a b"
  shows "sort_js c (map g xs) = map g (sort_js c xs)"
proof (induction xs)
  case Nil
  show ?case by (simp add: sort_js_def)
next
  case (Cons x xs)
  have "sort_js c (map g (x # xs)) = insert_js c (g x) (sort_js c (map g xs))"
    by (simp add: sort_js_def)
  also have "\<dots> = insert_js c (g x) (map g (sort_js c xs))"
    by (simp add: Cons.IH)
  also have "\<dots> = map g (insert_js c x (sort_js c xs))"
    by (rule insert_js_map) (rule assms)
  finally show ?case by (simp add: sort_js_def)
qed

lemma filter_map_inv:
  assumes "\<And>a. P (g a) = P a"
  shows "filter P (map g xs) = map g (filter P xs)"
  by (induction xs) (auto simp: assms)

lemma compareRepos_selected:
  "compareRepos h k (a\<lparr>selected := s\<rparr>) (b\<lparr>selected := t\<rparr>) = compareRepos h k a b"
  by (cases k) simp_all

lemma matchesSearch_selected: "matchesSearch term (a\<lparr>selected := s\<rparr>) = matchesSearch term a"
  by (simp add: matchesSearch_def)

lemma searchStage_selected:
  "searchStage term (map (\<lambda>repo. repo\<lparr>selected := s\<rparr>) xs)
     = map (\<lambda>repo. repo\<lparr>selected := s\<rparr>) (searchStage term xs)"
  by (simp add: searchStage_def filter_map_inv matchesSearch_selected)

lemma visibilityStage_selected:
  "visibilityStage f (map (\<lambda>repo. repo\<lparr>selected := s\<rparr>) xs)
     = map (\<lambda>repo. repo\<lparr>selected := s\<rparr>) (visibilityStage f xs)"
  by (simp add: visibilityStage_def filter_map_inv)

lemma languageStage_selected:
  "languageStage f (map (\<lambda>repo. repo\<lparr>selected := s\<rparr>) xs)
     = map (\<lambda>repo. repo\<lparr>selected := s\<rparr>) (languageStage f xs)"
  by (simp add: languageStage_def filter_map_inv)

lemma derive_selected:
  "derive h (map (\<lambda>repo. repo\<lparr>selected := Some c\<rparr>) repos) term f
     = map (\<lambda>repo. repo\<lparr>selected := Some c\<rparr>) (derive h repos term f)"
  by (simp only: derive_def searchStage_selected visibilityStage_selected languageStage_selected
        sort_js_map [where c = "compareRepos h (sortBy f)"
          and g = "\<lambda>repo. repo\<lparr>selected := Some c\<rparr>", OF compareRepos_selected])

lemma set_searchStage: "set (searchStage term xs) \<subseteq> set xs"
  by (auto simp: searchStage_def)

lemma set_visibilityStage: "set (visibilityStage f xs) \<subseteq> set xs"
  by (auto simp: visibilityStage_def)

lemma set_languageStage: "set (languageStage f xs) \<subseteq> set xs"
  by (auto simp: languageStage_def)

lemma set_derive_subset: "set (derive h repos term f) \<subseteq> set repos"
proof -
  have "set (derive h repos term f) = set (languageStage f (visibilityStage f (searchStage term repos)))"
    by (simp add: derive_def set_sort_js)
  also have "\<dots> \<subseteq> set (visibilityStage f (searchStage term repos))"
    by (rule set_languageStage)
  also have "\<dots> \<subseteq> set (searchStage term repos)"
    by (rule set_visibilityStage)
  also have "\<dots> \<subseteq> set repos"
    by (rule set_searchStage)
  finally show ?thesis .
qed

lemma same_id_same_item:
  assumes "distinct (map repo_id repos)" "x \<in> set repos" "y \<in> set repos" "repo_id x = repo_id y"
  shows "x = y"
  using assms by (meson distinct_map inj_on_def)

lemma find_in_set: "find P xs = Some x \<Longrightarrow> x \<in> set xs \<and> P x"
  by (induction xs) (auto split: if_splits)

lemma find_None_no: "find P xs = None \<Longrightarrow> x \<in> set xs \<Longrightarrow> \<not> P x"
  by (induction xs) (auto split: if_splits)

section \<open>Selection manager: select all\<close>

text \<open>
  Claim C8. For every catalog and every boolean \<open>checked\<close>, \<open>toggleSelectAll checked\<close>
  changes nothing of the state but the catalog, keeps the catalog's length and order, and
  replaces each item by the same item with \<open>selected\<close> set to \<open>checked\<close>: no other field
  of any item changes. This holds for every item of the catalog, displayed or hidden by
  the active filter, and the view derived afterwards under any query and any filter
  configuration is the view of the old catalog with \<open>selected\<close> set to \<open>checked\<close> in every
  row, so an item that was hidden shows the updated flag as soon as a filter reveals it.
\<close>

theorem C8_toggleSelectAll_sets_every_item:
  "toggleSelectAll checked st = st\<lparr>repositories := repositories (toggleSelectAll checked st)\<rparr>
   \<and> length (repositories (toggleSelectAll checked st)) = length (repositories st)
   \<and> (\<forall>k < length (repositories st).
        repositories (toggleSelectAll checked st) ! k
          = (repositories st ! k)\<lparr>selected := Some checked\<rparr>)
   \<and> (\<forall>repo \<in> set (repositories (toggleSelectAll checked st)). selected repo = Some checked)
   \<and> derive h (repositories (toggleSelectAll checked st)) term f
        = map (\<lambda>repo. repo\<lparr>selected := Some checked\<rparr>) (derive h (repositories st) term f)
   \<and> filteredRepositories (filterRepositories h (toggleSelectAll checked st))
        = map (\<lambda>repo. repo\<lparr>selected := Some checked\<rparr>)
            (filteredRepositories (filterRepositories h st))"
  by (auto simp: toggleSelectAll_def filterRepositories_def derive_selected)

text \<open>
  An instance: with the language filter set to Go, \<open>ex_alpha\<close> is hidden; after
  select-all it is selected in the catalog and unchanged otherwise.
\<close>

theorem C8_toggleSelectAll_witness:
  "(0::nat) < length (repositories (ex_state [ex_alpha, ex_beta]))
   \<and> repositories (toggleSelectAll True (ex_state [ex_alpha, ex_beta])) ! 0
       = ex_alpha\<lparr>selected := Some True\<rparr>
   \<and> derive ex_host (repositories (toggleSelectAll True (ex_state [ex_alpha, ex_beta]))) []
        (ex_filters\<lparr>f_language := ''Go''\<rparr>) = [ex_beta\<lparr>selected := Some True\<rparr>]"
proof -
  let ?st = "ex_state [ex_alpha, ex_beta]"
  have len: "(0::nat) < length (repositories ?st)"
    by (simp add: ex_state_def)
  have at0: "repositories ?st ! 0 = ex_alpha"
    by (simp add: ex_state_def)
  have view: "derive ex_host (repositories ?st) [] (ex_filters\<lparr>f_language := ''Go''\<rparr>) = [ex_beta]"
    by code_simp
  from C8_toggleSelectAll_sets_every_item [of True ?st ex_host "[]" "ex_filters\<lparr>f_language := ''Go''\<rparr>"]
  have "(\<forall>k < length (repositories ?st).
           repositories (toggleSelectAll True ?st) ! k = (repositories ?st ! k)\<lparr>selected := Some True\<rparr>)"
    and "derive ex_host (repositories (toggleSelectAll True ?st)) [] (ex_filters\<lparr>f_language := ''Go''\<rparr>)
           = map (\<lambda>repo. repo\<lparr>selected := Some True\<rparr>)
               (derive ex_host (repositories ?st) [] (ex_filters\<lparr>f_language := ''Go''\<rparr>))"
    by blast+
  with len at0 view show ?thesis by simp
qed

section \<open>Selection manager: toggling one item\<close>

text \<open>
  Claim C9. In a catalog with unique identifiers, \<open>toggleRepository i\<close> replaces the item
  with identifier \<open>i\<close> by the same item with its \<open>selected\<close> flag negated, leaves every
  other item and every other part of the state unchanged, and is reached only through
  the row's checkbox: while the item's \<open>deleteStatus\<close> is pending the checkbox is disabled
  and the state stays as it is, so the flag of a pending item is not changed; for a
  displayed item that is not pending the checkbox performs the toggle.
\<close>

theorem C9_toggleRepository_flips_one_unless_pending:
  assumes ids: "distinct (map repo_id (repositories st))"
      and view: "filteredRepositories st = derive h (repositories st) (searchTerm st) (filters st)"
      and r: "r \<in> set (repositories st)" and i: "repo_id r = i"
  shows "repositories (toggleRepository i st)
           = map (\<lambda>x. if x = r then r\<lparr>selected := Some (\<not> is_selected r)\<rparr> else x) (repositories st)
       \<and> toggleRepository i st = st\<lparr>repositories := repositories (toggleRepository i st)\<rparr>
       \<and> (deleteStatus r = Some Pending \<longrightarrow> checkboxChange i st = st)
       \<and> (deleteStatus r \<noteq> Some Pending \<and> r \<in> set (filteredRepositories st)
            \<longrightarrow> checkboxChange i st = toggleRepository i st)"
proof (intro conjI impI)
  have same: "(repo_id x = i) = (x = r)" if "x \<in> set (repositories st)" for x
    using same_id_same_item [OF ids that r] i by metis
  have "map (\<lambda>repo. if repo_id repo = i then repo\<lparr>selected := Some (\<not> is_selected repo)\<rparr> else repo)
          (repositories st)
        = map (\<lambda>x. if x = r then r\<lparr>selected := Some (\<not> is_selected r)\<rparr> else x) (repositories st)"
    by (rule map_cong [OF refl]) (simp add: same)
  then show "repositories (toggleRepository i st)
           = map (\<lambda>x. if x = r then r\<lparr>selected := Some (\<not> is_selected r)\<rparr> else x) (repositories st)"
    by (simp add: toggleRepository_def)
  show "toggleRepository i st = st\<lparr>repositories := repositories (toggleRepository i st)\<rparr>"
    by (simp add: toggleRepository_def)
  have sub: "set (filteredRepositories st) \<subseteq> set (repositories st)"
    by (simp add: view set_derive_subset)
  have found: "x = r" if "find (\<lambda>repo. repo_id repo = i) (filteredRepositories st) = Some x" for x
  proof -
    from find_in_set [OF that] have "x \<in> set (filteredRepositories st)" "repo_id x = i" by blast+
    with sub same show ?thesis by blast
  qed
  show "checkboxChange i st = st" if "deleteStatus r = Some Pending"
  proof (cases "find (\<lambda>repo. repo_id repo = i) (filteredRepositories st)")
    case None
    then show ?thesis by (simp add: checkboxChange_def)
  next
    case (Some x)
    with found [OF Some] that show ?thesis by (simp add: checkboxChange_def)
  qed
  show "checkboxChange i st = toggleRepository i st"
    if "deleteStatus r \<noteq> Some Pending \<and> r \<in> set (filteredRepositories st)"
  proof (cases "find (\<lambda>repo. repo_id repo = i) (filteredRepositories st)")
    case None
    from find_None_no [OF None, of r] that i show ?thesis by blast
  next
    case (Some x)
    with found [OF Some] that i show ?thesis by (simp add: checkboxChange_def)
  qed
qed

text \<open>
  An instance: \<open>ex_beta\<close> is selected and pending. Its checkbox does nothing, although the
  function behind it would clear the flag.
\<close>

theorem C9_toggleRepository_witness:
  "distinct (map repo_id (repositories ex_pending_state))
   \<and> ex_beta\<lparr>selected := Some True, deleteStatus := Some Pending\<rparr> \<in> set (repositories ex_pending_state)
   \<and> checkboxChange 2 ex_pending_state = ex_pending_state
   \<and> repositories (toggleRepository 2 ex_pending_state)
       = [ex_alpha, ex_beta\<lparr>selected := Some False, deleteStatus := Some Pending\<rparr>]"
proof -
  let ?r = "ex_beta\<lparr>selected := Some True, deleteStatus := Some Pending\<rparr>"
  have ids: "distinct (map repo_id (repositories ex_pending_state))"
    by code_simp
  have view: "filteredRepositories ex_pending_state
                = derive ex_host (repositories ex_pending_state) (searchTerm ex_pending_state)
                    (filters ex_pending_state)"
    by (simp add: ex_pending_state_def filterRepositories_def)
  have r: "?r \<in> set (repositories ex_pending_state)"
    by (simp add: ex_pending_state_def filterRepositories_def ex_state_def)
  have i: "repo_id ?r = 2"
    by code_simp
  have p: "deleteStatus ?r = Some Pending"
    by simp
  have m: "map (\<lambda>x. if x = ?r then ?r\<lparr>selected := Some (\<not> is_selected ?r)\<rparr> else x)
             (repositories ex_pending_state)
           = [ex_alpha, ex_beta\<lparr>selected := Some False, deleteStatus := Some Pending\<rparr>]"
    by code_simp
  from C9_toggleRepository_flips_one_unless_pending [OF ids view r i] p m ids r
  show ?thesis by simp
qed

section \<open>Facts about the batch loop\<close>


lemma deleteLoop_calls:
  "calls (fst (deleteLoop rem u sel (st, sc, fc))) = calls st @ map (\<lambda>r. DeleteRepo u (name r)) sel"
  by (induction sel arbitrary: st sc fc) (auto split: sum.splits)


lemma deleteLoop_counts:
  "snd (deleteLoop rem u sel (st, sc, fc))
     = (sc + length (filter (\<lambda>out. \<not> isl out) (outcomes rem u (calls st) sel)),
        fc + length (filter isl (outcomes rem u (calls st) sel)))"
  by (induction sel arbitrary: st sc fc) (auto split: sum.splits)

lemma deleteLoop_frame:
  "deleteLoop rem u sel (st, sc, fc) = (st', sc', fc') \<Longrightarrow>
     st' = st\<lparr>calls := calls st', repositories := repositories st', toasts := toasts st'\<rparr>"
proof (induction sel arbitrary: st sc fc)
  case Nil
  then show ?case by simp
next
  case (Cons repo rest)
  show ?case
  proof (cases "delete_repo rem (calls st) u (name repo)")
    case (Inl err)
    with Cons.prems have "deleteLoop rem u rest
                (st\<lparr>calls := calls st @ [DeleteRepo u (name repo)],
                    repositories :=
                      map (\<lambda>r. if repo_id r = repo_id repo
                                then r\<lparr>deleteStatus := Some Error, errorMessage := Some (or_default (err_response_message err) ''Unknown error occurred'')\<rparr>
                                else r)
                        (repositories st),
                    toasts := toasts st @ [ToastError (''Failed to delete '' @ name repo)]\<rparr>,
                 sc, fc + 1) = (st', sc', fc')" by simp
    from Cons.IH [OF this] show ?thesis by simp
  next
    case (Inr v)
    with Cons.prems have "deleteLoop rem u rest
            (st\<lparr>calls := calls st @ [DeleteRepo u (name repo)],
                repositories :=
                  map (\<lambda>r. if repo_id r = repo_id repo then r\<lparr>deleteStatus := Some Success\<rparr> else r)
                    (repositories st),
                toasts := toasts st @ [ToastSuccess (''Deleted '' @ name repo)]\<rparr>,
             sc + 1, fc) = (st', sc', fc')" by simp
    from Cons.IH [OF this] show ?thesis by simp
  qed
qed





lemma confirmDelete_verified:
  "verifyTokenPermissions rem (calls st0) = Inr username \<Longrightarrow>
     confirmDelete rem st0 = (finishBatch rem (batchLoop rem username st0))\<lparr>deleteInProgress := False\<rparr>"
  by (simp add: confirmDelete_def batchLoop_def)

lemma confirmDelete_rejected:
  "verifyTokenPermissions rem (calls st0) = Inl err \<Longrightarrow>
     confirmDelete rem st0 =
       st0\<lparr>deleteConfirmationOpen := False, deleteInProgress := False,
           error := message_text err, success := [], calls := calls st0 @ [GetUser],
           toasts := toasts st0 @ [ToastError (message_text err)]\<rparr>"
  by (simp add: confirmDelete_def)

lemma fetchRepositories_rejected:
  "verifyTokenPermissions rem (calls st) = Inl err \<Longrightarrow>
     fetchRepositories rem st
       = fetch_failed err (st\<lparr>loading := True, error := [], success := [], calls := calls st @ [GetUser]\<rparr>)"
  by (simp add: fetchRepositories_def Let_def)

lemma fetchRepositories_list_failed:
  "verifyTokenPermissions rem (calls st) = Inr username \<Longrightarrow>
   get_user_repos rem (calls st @ [GetUser]) = Inl err \<Longrightarrow>
     fetchRepositories rem st
       = fetch_failed err (st\<lparr>loading := True, error := [], success := [],
                               calls := calls st @ [GetUser, GetUserRepos]\<rparr>)"
  by (simp add: fetchRepositories_def Let_def)

lemma fetchRepositories_loaded:
  "verifyTokenPermissions rem (calls st) = Inr username \<Longrightarrow>
   get_user_repos rem (calls st @ [GetUser]) = Inr data \<Longrightarrow>
     fetchRepositories rem st
       = st\<lparr>loading := False, error := [], success := [],
            calls := calls st @ [GetUser, GetUserRepos],
            repositories := map spread_selected_false data,
            toasts := toasts st @
              [ToastSuccess (''Successfully loaded '' @ digits (length data)
                 @ '' repositories for '' @ username)]\<rparr>"
  by (simp add: fetchRepositories_def Let_def)

lemma fetchRepositories_calls:
  "\<exists>tail. calls (fetchRepositories rem st) = calls st @ GetUser # tail
          \<and> (tail = [] \<or> tail = [GetUserRepos])"
proof (cases "verifyTokenPermissions rem (calls st)")
  case (Inl err)
  then show ?thesis by (simp add: fetchRepositories_rejected fetch_failed_def)
next
  case (Inr username)
  show ?thesis
  proof (cases "get_user_repos rem (calls st @ [GetUser])")
    case (Inl err)
    with Inr show ?thesis by (simp add: fetchRepositories_list_failed fetch_failed_def)
  next
    case (Inr data)
    with \<open>verifyTokenPermissions rem (calls st) = Inr username\<close> show ?thesis
      by (simp add: fetchRepositories_loaded)
  qed
qed

lemma batchLoop_calls:
  "calls (fst (batchLoop rem u st0))
     = calls st0 @ GetUser # map (\<lambda>r. DeleteRepo u (name r)) (filter is_selected (repositories st0))"
  by (simp add: batchLoop_def deleteLoop_calls markPending_def)

lemma batchLoop_counts:
  "snd (batchLoop rem u st0)
     = (length (filter (\<lambda>out. \<not> isl out) (batchOutcomes rem u st0)),
        length (filter isl (batchOutcomes rem u st0)))"
  by (simp add: batchLoop_def batchOutcomes_def deleteLoop_counts markPending_def)







lemma finishBatch_failures:
  "0 < snd (snd acc) \<Longrightarrow>
     finishBatch rem acc =
       (fst acc)\<lparr>error := ''Failed to delete '' @ digits (snd (snd acc)) @ '' repositories. ''
                    @ digits (fst (snd acc)) @ '' repositories were deleted successfully.''\<rparr>"
  by (cases acc) (simp add: finishBatch_def)

lemma finishBatch_all_deleted:
  "snd (snd acc) = 0 \<Longrightarrow>
     finishBatch rem acc =
       fetchRepositories rem ((fst acc)\<lparr>success := ''All selected repositories were deleted successfully!''\<rparr>)"
  by (cases acc) (simp add: finishBatch_def)

section \<open>Orchestrator: the guard on an empty selection\<close>

text \<open>
  Claim C2. In every state in which no item of the catalog is selected,
  \<open>handleDeleteSelected\<close> reports the nothing-selected error (the error toast asking to
  select repositories) and does nothing else: the log of remote requests is unchanged,
  the catalog, and with it every item's \<open>deleteStatus\<close>, is unchanged, and the
  confirmation view, from which a run is started, is not opened.
\<close>

theorem C2_handleDeleteSelected_nothing_selected:
  assumes "\<forall>repo \<in> set (repositories st). \<not> is_selected repo"
  shows "handleDeleteSelected st
           = st\<lparr>toasts := toasts st @ [ToastError ''Please select repositories to delete'']\<rparr>
       \<and> calls (handleDeleteSelected st) = calls st
       \<and> repositories (handleDeleteSelected st) = repositories st
       \<and> deleteConfirmationOpen (handleDeleteSelected st) = deleteConfirmationOpen st"
proof -
  from assms have "filter is_selected (repositories st) = []"
    by (simp add: filter_empty_conv)
  then show ?thesis by (simp add: handleDeleteSelected_def)
qed

theorem C2_handleDeleteSelected_witness:
  "\<not> is_selected ex_alpha \<and> \<not> is_selected ex_beta
   \<and> toasts (handleDeleteSelected (ex_state [ex_alpha, ex_beta]))
       = [ToastError ''Please select repositories to delete'']
   \<and> calls (handleDeleteSelected (ex_state [ex_alpha, ex_beta])) = []
   \<and> repositories (handleDeleteSelected (ex_state [ex_alpha, ex_beta])) = [ex_alpha, ex_beta]"
proof -
  have a: "\<not> is_selected ex_alpha" and b: "\<not> is_selected ex_beta"
    by code_simp+
  then have none: "\<forall>repo \<in> set (repositories (ex_state [ex_alpha, ex_beta])). \<not> is_selected repo"
    by (simp add: ex_state_def)
  from C2_handleDeleteSelected_nothing_selected [OF none] a b
  show ?thesis by (simp add: ex_state_def)
qed

section \<open>Orchestrator: verification before the batch\<close>

lemma verifyTokenPermissions_cases:
  "verifyTokenPermissions rem hist =
     (case get_user rem hist of
        Inl err \<Rightarrow>
          if err_status err = Some 401
          then Inl (new_Error ''Invalid token. Please check your token and try again.'')
          else Inl (new_Error (or_default (err_message err)
                 ''Failed to verify token permissions. Please ensure your token is valid and has the delete_repo scope.''))
      | Inr response \<Rightarrow>
          if hasDeleteScope response then Inr (login response)
          else Inl (new_Error ''Token does not have delete_repo scope. Please generate a new token with the delete_repo permission.''))"
  by (simp add: verifyTokenPermissions_def new_Error_def or_default_def split: sum.splits)

lemma confirmDelete_calls:
  "\<exists>rest. calls (confirmDelete rem st) = calls st @ GetUser # rest"
proof (cases "verifyTokenPermissions rem (calls st)")
  case (Inl err)
  then show ?thesis by (simp add: confirmDelete_rejected)
next
  case (Inr username)
  let ?acc = "batchLoop rem username st"
  show ?thesis
  proof (cases "snd (snd ?acc) = 0")
    case True
    obtain tail where "calls (fetchRepositories rem ((fst ?acc)\<lparr>success := ''All selected repositories were deleted successfully!''\<rparr>))
        = calls ((fst ?acc)\<lparr>success := ''All selected repositories were deleted successfully!''\<rparr>) @ GetUser # tail"
      using fetchRepositories_calls by blast
    then show ?thesis
      by (simp add: confirmDelete_verified [OF Inr] finishBatch_all_deleted [OF True] batchLoop_calls)
  next
    case False
    then have "0 < snd (snd ?acc)" by simp
    then show ?thesis
      by (simp add: confirmDelete_verified [OF Inr] finishBatch_failures batchLoop_calls)
  qed
qed

text \<open>
  Claim C3. Every run of \<open>confirmDelete\<close> begins with the identity request of the
  credential verifier, before any other request. The verification fails exactly when that
  request is rejected or the returned scopes lack \<open>delete_repo\<close>; whenever it fails
  (rejected credential, missing scope, or any other error) the run issues no further
  request, in particular no destructive one, leaves the catalog and so every item's
  \<open>deleteStatus\<close> unchanged, and reports the verifier's message, which is never empty.
\<close>

theorem C3_confirmDelete_verifies_first:
  "(\<exists>rest. calls (confirmDelete rem st) = calls st @ GetUser # rest)
   \<and> (isl (verifyTokenPermissions rem (calls st))
        \<longleftrightarrow> (case get_user rem (calls st) of Inl err \<Rightarrow> True | Inr response \<Rightarrow> \<not> hasDeleteScope response))
   \<and> (isl (verifyTokenPermissions rem (calls st)) \<longrightarrow>
         calls (confirmDelete rem st) = calls st @ [GetUser]
       \<and> filter is_delete (calls (confirmDelete rem st)) = filter is_delete (calls st)
       \<and> repositories (confirmDelete rem st) = repositories st
       \<and> error (confirmDelete rem st) = message_text (projl (verifyTokenPermissions rem (calls st)))
       \<and> error (confirmDelete rem st) \<noteq> [])"
proof (intro conjI impI)
  show "\<exists>rest. calls (confirmDelete rem st) = calls st @ GetUser # rest"
    by (rule confirmDelete_calls)
  show "isl (verifyTokenPermissions rem (calls st))
        \<longleftrightarrow> (case get_user rem (calls st) of Inl err \<Rightarrow> True | Inr response \<Rightarrow> \<not> hasDeleteScope response)"
    by (simp add: verifyTokenPermissions_cases split: sum.splits)
  assume "isl (verifyTokenPermissions rem (calls st))"
  then obtain err where err: "verifyTokenPermissions rem (calls st) = Inl err"
    by (cases "verifyTokenPermissions rem (calls st)") auto
  show "calls (confirmDelete rem st) = calls st @ [GetUser]"
    by (simp add: confirmDelete_rejected [OF err])
  show "filter is_delete (calls (confirmDelete rem st)) = filter is_delete (calls st)"
    by (simp add: confirmDelete_rejected [OF err])
  show "repositories (confirmDelete rem st) = repositories st"
    by (simp add: confirmDelete_rejected [OF err])
  show "error (confirmDelete rem st) = message_text (projl (verifyTokenPermissions rem (calls st)))"
    by (simp add: confirmDelete_rejected [OF err] err)
  have "message_text err \<noteq> []"
    using err
    by (auto simp: verifyTokenPermissions_cases new_Error_def message_text_def or_default_def
          split: sum.splits if_splits option.splits)
  then show "error (confirmDelete rem st) \<noteq> []"
    by (simp add: confirmDelete_rejected [OF err])
qed

theorem C3_confirmDelete_witness:
  "isl (verifyTokenPermissions ex_remote_unauthorized (calls (toggleSelectAll True (ex_state [ex_alpha, ex_beta]))))
   \<and> calls (confirmDelete ex_remote_unauthorized (toggleSelectAll True (ex_state [ex_alpha, ex_beta])))
       = [GetUser]
   \<and> repositories (confirmDelete ex_remote_unauthorized (toggleSelectAll True (ex_state [ex_alpha, ex_beta])))
       = [ex_alpha\<lparr>selected := Some True\<rparr>, ex_beta\<lparr>selected := Some True\<rparr>]
   \<and> error (confirmDelete ex_remote_unauthorized (toggleSelectAll True (ex_state [ex_alpha, ex_beta])))
       = ''Invalid token. Please check your token and try again.''"
proof -
  let ?st = "toggleSelectAll True (ex_state [ex_alpha, ex_beta])"
  have fails: "isl (verifyTokenPermissions ex_remote_unauthorized (calls ?st))"
    by code_simp
  have msg: "message_text (projl (verifyTokenPermissions ex_remote_unauthorized (calls ?st)))
               = ''Invalid token. Please check your token and try again.''"
    by code_simp
  have c: "calls ?st = []" and r: "repositories ?st = [ex_alpha\<lparr>selected := Some True\<rparr>, ex_beta\<lparr>selected := Some True\<rparr>]"
    by (simp_all add: toggleSelectAll_def ex_state_def)
  from C3_confirmDelete_verifies_first [of ex_remote_unauthorized ?st] fails
  have "calls (confirmDelete ex_remote_unauthorized ?st) = calls ?st @ [GetUser]"
    and "repositories (confirmDelete ex_remote_unauthorized ?st) = repositories ?st"
    and "error (confirmDelete ex_remote_unauthorized ?st)
           = message_text (projl (verifyTokenPermissions ex_remote_unauthorized (calls ?st)))"
    by blast+
  with fails msg c r show ?thesis by simp
qed

section \<open>Catalog fetcher: a successful fetch\<close>

text \<open>
  Claim C10. Whenever a fetch succeeds (the verification returns a login and the listing
  request returns its data), the catalog becomes the items of the response, each with
  \<open>selected\<close> false and with \<open>deleteStatus\<close> and \<open>errorMessage\<close> unset, whatever the
  catalog held before. The same holds for the refetch that \<open>confirmDelete\<close> starts after a
  batch in which every destructive request succeeded.
\<close>

theorem C10_fetch_clears_selection_and_status:
  "(verifyTokenPermissions rem (calls st) = Inr username
      \<and> get_user_repos rem (calls st @ [GetUser]) = Inr data
    \<longrightarrow> repositories (fetchRepositories rem st) = map spread_selected_false data
      \<and> (\<forall>repo \<in> set (repositories (fetchRepositories rem st)).
            selected repo = Some False \<and> deleteStatus repo = None \<and> errorMessage repo = None))
   \<and> (verifyTokenPermissions rem (calls st0) = Inr username0
      \<and> (\<forall>out \<in> set (batchOutcomes rem username0 st0). \<not> isl out)
      \<and> verifyTokenPermissions rem (calls (fst (batchLoop rem username0 st0))) = Inr username
      \<and> get_user_repos rem (calls (fst (batchLoop rem username0 st0)) @ [GetUser]) = Inr data
    \<longrightarrow> repositories (confirmDelete rem st0) = map spread_selected_false data
      \<and> (\<forall>repo \<in> set (repositories (confirmDelete rem st0)).
            selected repo = Some False \<and> deleteStatus repo = None \<and> errorMessage repo = None))"
proof (intro conjI impI)
  assume a: "verifyTokenPermissions rem (calls st) = Inr username
      \<and> get_user_repos rem (calls st @ [GetUser]) = Inr data"
  then show r: "repositories (fetchRepositories rem st) = map spread_selected_false data"
    by (simp add: fetchRepositories_loaded [of rem st username data])
  show "\<forall>repo \<in> set (repositories (fetchRepositories rem st)).
            selected repo = Some False \<and> deleteStatus repo = None \<and> errorMessage repo = None"
    unfolding r by (auto simp: spread_selected_false_def)
next
  assume a: "verifyTokenPermissions rem (calls st0) = Inr username0
      \<and> (\<forall>out \<in> set (batchOutcomes rem username0 st0). \<not> isl out)
      \<and> verifyTokenPermissions rem (calls (fst (batchLoop rem username0 st0))) = Inr username
      \<and> get_user_repos rem (calls (fst (batchLoop rem username0 st0)) @ [GetUser]) = Inr data"
  let ?acc = "batchLoop rem username0 st0"
  let ?st = "(fst ?acc)\<lparr>success := ''All selected repositories were deleted successfully!''\<rparr>"
  from a have "filter isl (batchOutcomes rem username0 st0) = []"
    by (simp add: filter_empty_conv)
  then have zero: "snd (snd ?acc) = 0"
    by (simp add: batchLoop_counts)
  have v: "verifyTokenPermissions rem (calls ?st) = Inr username"
    and l: "get_user_repos rem (calls ?st @ [GetUser]) = Inr data"
    using a by simp_all
  from a have v0: "verifyTokenPermissions rem (calls st0) = Inr username0" by simp
  show r: "repositories (confirmDelete rem st0) = map spread_selected_false data"
    by (simp add: confirmDelete_verified [OF v0] finishBatch_all_deleted [OF zero]
          fetchRepositories_loaded [OF v l])
  show "\<forall>repo \<in> set (repositories (confirmDelete rem st0)).
            selected repo = Some False \<and> deleteStatus repo = None \<and> errorMessage repo = None"
    unfolding r by (auto simp: spread_selected_false_def)
qed

theorem C10_fetch_witness:
  "verifyTokenPermissions ex_remote (calls ex_two_selected) = Inr ''octo''
   \<and> repositories (fetchRepositories ex_remote ex_two_selected) = [ex_alpha, ex_beta, ex_gamma]
   \<and> repositories (confirmDelete ex_remote ex_two_selected) = [ex_gamma]"
proof -
  let ?data = "[ex_api 1 ''alpha'' False (Some ''First tool'') (Some ''TypeScript'') 3,
                ex_api 2 ''beta'' True None (Some ''Go'') 1,
                ex_api 3 ''gamma'' False (Some ''Parser for XML files'') (Some ''TypeScript'') 2]"
  let ?rest = "[ex_api 3 ''gamma'' False (Some ''Parser for XML files'') (Some ''TypeScript'') 2]"
  have v: "verifyTokenPermissions ex_remote (calls ex_two_selected) = Inr ''octo''"
    by code_simp
  have l: "get_user_repos ex_remote (calls ex_two_selected @ [GetUser]) = Inr ?data"
    by code_simp
  have ok: "\<forall>out \<in> set (batchOutcomes ex_remote ''octo'' ex_two_selected). \<not> isl out"
    by code_simp
  have v2: "verifyTokenPermissions ex_remote (calls (fst (batchLoop ex_remote ''octo'' ex_two_selected)))
              = Inr ''octo''"
    by code_simp
  have l2: "get_user_repos ex_remote (calls (fst (batchLoop ex_remote ''octo'' ex_two_selected)) @ [GetUser])
              = Inr ?rest"
    by code_simp
  have d: "map spread_selected_false ?data = [ex_alpha, ex_beta, ex_gamma]"
    by (simp add: ex_alpha_def ex_beta_def ex_gamma_def ex_repo_def)
  have d2: "map spread_selected_false ?rest = [ex_gamma]"
    by (simp add: ex_gamma_def ex_repo_def)
  from C10_fetch_clears_selection_and_status
         [where rem = ex_remote and st = ex_two_selected and username = "''octo''" and data = ?data]
       v l
  have "repositories (fetchRepositories ex_remote ex_two_selected) = map spread_selected_false ?data"
    by blast
  moreover
  from C10_fetch_clears_selection_and_status
         [where rem = ex_remote and ?st0.0 = ex_two_selected and ?username0.0 = "''octo''"
            and username = "''octo''" and data = ?rest]
       v ok v2 l2
  have "repositories (confirmDelete ex_remote ex_two_selected) = map spread_selected_false ?rest"
    by blast
  ultimately show ?thesis using v d d2 by simp
qed

section \<open>Orchestrator: the order of the destructive requests\<close>
















section \<open>Orchestrator: counters, statuses and the refetch\<close>





section \<open>Filter engine: which items are included\<close>

lemma startsWith_iff: "startsWith s q \<longleftrightarrow> (\<exists>suf. s = q @ suf)"
  by (induction s q rule: startsWith.induct) auto

lemma includes_str_iff: "includes_str s q \<longleftrightarrow> (\<exists>pre suf. s = pre @ q @ suf)"
proof (induction s)
  case Nil
  show ?case by auto
next
  case (Cons c cs)
  show ?case
  proof
    assume "includes_str (c # cs) q"
    then consider "startsWith (c # cs) q" | "includes_str cs q" by auto
    then show "\<exists>pre suf. c # cs = pre @ q @ suf"
    proof cases
      case 1
      then obtain suf where "c # cs = q @ suf" using startsWith_iff by blast
      then have "c # cs = [] @ q @ suf" by simp
      then show ?thesis by blast
    next
      case 2
      with Cons.IH obtain pre suf where "cs = pre @ q @ suf" by blast
      then have "c # cs = (c # pre) @ q @ suf" by simp
      then show ?thesis by blast
    qed
  next
    assume "\<exists>pre suf. c # cs = pre @ q @ suf"
    then obtain pre suf where eq: "c # cs = pre @ q @ suf" by blast
    show "includes_str (c # cs) q"
    proof (cases pre)
      case Nil
      with eq have "startsWith (c # cs) q" using startsWith_iff by auto
      then show ?thesis by simp
    next
      case (Cons p pre')
      with eq have "cs = pre' @ q @ suf" by simp
      with Cons.IH have "includes_str cs q" by blast
      then show ?thesis by simp
    qed
  qed
qed

lemma matchesSearch_iff:
  "matchesSearch term r \<longleftrightarrow>
     ci_substring term (name r) \<or> (\<exists>d. description r = Some d \<and> ci_substring term d)"
  by (simp add: matchesSearch_def ci_substring_def includes_str_iff split: option.splits)

lemma stages_filter:
  "languageStage f (visibilityStage f (searchStage term repos)) = filter (passes term f) repos"
proof -
  have s: "searchStage term repos = filter (\<lambda>r. term = [] \<or> matchesSearch term r) repos"
    by (simp add: searchStage_def)
  have v: "visibilityStage f xs = filter (visibility_ok f) xs" for xs
    by (auto simp: visibilityStage_def visibility_ok_def intro: filter_cong)
  have l: "languageStage f xs = filter (language_ok f) xs" for xs
    by (auto simp: languageStage_def language_ok_def intro: filter_cong)
  show ?thesis
    unfolding s v l by (auto simp: passes_def intro: filter_cong)
qed

lemma derive_sorts_filtered:
  "derive h repos term f = sort_js (compareRepos h (sortBy f)) (filter (passes term f) repos)"
  by (simp add: derive_def stages_filter)

lemma filter_single:
  "distinct xs \<Longrightarrow> x \<in> set xs \<Longrightarrow> (\<And>y. y \<in> set xs \<Longrightarrow> P y = (y = x)) \<Longrightarrow> filter P xs = [x]"
proof (induction xs)
  case Nil
  then show ?case by simp
next
  case (Cons a xs)
  show ?case
  proof (cases "a = x")
    case True
    with Cons.prems have "\<And>y. y \<in> set xs \<Longrightarrow> \<not> P y" by auto
    then have "filter P xs = []" by (simp add: filter_empty_conv)
    with True Cons.prems(3) [of a] show ?thesis by simp
  next
    case False
    with Cons.prems have "filter P xs = [x]" by (intro Cons.IH) auto
    with False Cons.prems(3) [of a] show ?thesis by simp
  qed
qed


lemma ci_substring_code [code]:
  "ci_substring q s = includes_str (toLowerCase s) (toLowerCase q)"
  by (simp add: ci_substring_def includes_str_iff)

lemma no_description_match:
  "(\<forall>d. description x = Some d \<longrightarrow> \<not> ci_substring term d)
     \<longleftrightarrow> (case description x of None \<Rightarrow> True | Some d \<Rightarrow> \<not> ci_substring term d)"
  by (cases "description x") auto

text \<open>
  Claim C5, as the code has it. For every catalog, query and filter configuration, the
  view contains an item exactly when the item is in the catalog, passes the visibility
  rule and the language rule of the configuration, and the query is empty or is a
  case-insensitive substring of the item's name or of its description; an item without
  description can match by its name only. In particular, when the query is not empty, no
  name in the catalog contains it, exactly one item's description contains it, and that
  item passes the visibility and language rules, the view is exactly that item.
\<close>

theorem C5_filter_includes_matching_items:
  "(r \<in> set (derive h repos term f) \<longleftrightarrow>
      r \<in> set repos \<and> visibility_ok f r \<and> language_ok f r
      \<and> (term = [] \<or> ci_substring term (name r)
           \<or> (\<exists>d. description r = Some d \<and> ci_substring term d)))
   \<and> (distinct (map repo_id repos) \<and> r0 \<in> set repos
        \<and> visibility_ok f r0 \<and> language_ok f r0 \<and> term \<noteq> []
        \<and> (\<exists>d. description r0 = Some d \<and> ci_substring term d)
        \<and> (\<forall>x \<in> set repos. \<not> ci_substring term (name x))
        \<and> (\<forall>x \<in> set repos. x \<noteq> r0 \<longrightarrow> (\<forall>d. description x = Some d \<longrightarrow> \<not> ci_substring term d))
      \<longrightarrow> derive h repos term f = [r0])"
proof (intro conjI impI)
  show "r \<in> set (derive h repos term f) \<longleftrightarrow>
      r \<in> set repos \<and> visibility_ok f r \<and> language_ok f r
      \<and> (term = [] \<or> ci_substring term (name r)
           \<or> (\<exists>d. description r = Some d \<and> ci_substring term d))"
    by (auto simp: derive_sorts_filtered set_sort_js passes_def matchesSearch_iff)
next
  assume a: "distinct (map repo_id repos) \<and> r0 \<in> set repos
        \<and> visibility_ok f r0 \<and> language_ok f r0 \<and> term \<noteq> []
        \<and> (\<exists>d. description r0 = Some d \<and> ci_substring term d)
        \<and> (\<forall>x \<in> set repos. \<not> ci_substring term (name x))
        \<and> (\<forall>x \<in> set repos. x \<noteq> r0 \<longrightarrow> (\<forall>d. description x = Some d \<longrightarrow> \<not> ci_substring term d))"
  then have d: "distinct repos" by (simp add: distinct_map)
  have "passes term f y = (y = r0)" if "y \<in> set repos" for y
    using a that by (auto simp: passes_def matchesSearch_iff)
  with d a have "filter (passes term f) repos = [r0]"
    by (intro filter_single) auto
  then show "derive h repos term f = [r0]"
    by (simp add: derive_sorts_filtered sort_js_def)
qed

text \<open>
  The claim as written, for every filter configuration and with the query rule alone,
  fails: with only show-private set and the empty query, the public item \<open>ex_alpha\<close> is
  in the catalog and not in the view.
\<close>

theorem C5_filter_config_counterexample:
  "ex_alpha \<in> set [ex_alpha]
   \<and> ex_alpha \<notin> set (derive ex_host [ex_alpha] [] (ex_filters\<lparr>f_private := True\<rparr>))"
  by code_simp

theorem C5_filter_witness:
  "distinct (map repo_id [ex_alpha, ex_beta, ex_gamma])
   \<and> description ex_gamma = Some ''Parser for XML files''
   \<and> ci_substring ''xml'' ''Parser for XML files''
   \<and> \<not> ci_substring ''xml'' (name ex_gamma)
   \<and> derive ex_host [ex_alpha, ex_beta, ex_gamma] ''xml'' ex_filters = [ex_gamma]"
proof -
  let ?repos = "[ex_alpha, ex_beta, ex_gamma]"
  have ids: "distinct (map repo_id ?repos)" by code_simp
  have mem: "ex_gamma \<in> set ?repos" by simp
  have vis: "visibility_ok ex_filters ex_gamma" by code_simp
  have lang: "language_ok ex_filters ex_gamma" by code_simp
  have ne: "''xml'' \<noteq> []" by simp
  have desc: "description ex_gamma = Some ''Parser for XML files''" by code_simp
  have hit: "ci_substring ''xml'' ''Parser for XML files''" by code_simp
  have names: "\<forall>x \<in> set ?repos. \<not> ci_substring ''xml'' (name x)" by code_simp
  have others: "\<forall>x \<in> set ?repos. x \<noteq> ex_gamma \<longrightarrow> (\<forall>d. description x = Some d \<longrightarrow> \<not> ci_substring ''xml'' d)"
    unfolding no_description_match by code_simp
  from desc hit have ex: "\<exists>d. description ex_gamma = Some d \<and> ci_substring ''xml'' d" by blast
  from names mem have nm: "\<not> ci_substring ''xml'' (name ex_gamma)" by blast
  from C5_filter_includes_matching_items [of _ ex_host ?repos "''xml''" ex_filters ex_gamma] ids mem vis lang ne ex names others
  have "derive ex_host ?repos ''xml'' ex_filters = [ex_gamma]" by blast
  with ids desc hit nm show ?thesis by blast
qed

section \<open>Available languages\<close>

lemma set_non_null: "set (non_null xs) = {x. Some x \<in> set xs}"
  by (induction xs rule: non_null.induct) auto

lemma fold_set_insert:
  "set (fold (\<lambda>x acc. if x \<in> set acc then acc else acc @ [x]) xs acc) = set acc \<union> set xs"
  by (induction xs arbitrary: acc) auto

lemma fold_set_insert_distinct:
  "distinct acc \<Longrightarrow> distinct (fold (\<lambda>x acc. if x \<in> set acc then acc else acc @ [x]) xs acc)"
  by (induction xs arbitrary: acc) auto

lemma set_array_from_set: "set (array_from_set xs) = set xs"
  by (simp add: array_from_set_def fold_set_insert)

lemma distinct_array_from_set: "distinct (array_from_set xs)"
  by (simp add: array_from_set_def fold_set_insert_distinct)

lemma uniqueLanguages_spec:
  "sorted (uniqueLanguages repos) \<and> distinct (uniqueLanguages repos)
   \<and> set (uniqueLanguages repos) = {l. \<exists>repo \<in> set repos. language repo = Some l}"
proof -
  have "set (non_null (map language repos)) = {l. \<exists>repo \<in> set repos. language repo = Some l}"
    unfolding set_non_null by (auto simp: image_iff) metis
  then show ?thesis
    by (simp add: uniqueLanguages_def set_array_from_set distinct_array_from_set)
qed

text \<open>
  Claim C7, as the code has it. After a change that leaves the catalog non-empty, the
  list of available languages is the sorted list, without duplicates, of the language
  tags that occur in the full catalog (not in the filtered view), items without a language
  left out. After a change that empties the catalog the list keeps its previous value.
  The effect never changes the catalog.
\<close>

theorem C7_languages_follow_nonempty_catalog:
  "(repositories st \<noteq> [] \<longrightarrow>
      sorted (languages (runEffects h st)) \<and> distinct (languages (runEffects h st))
      \<and> set (languages (runEffects h st)) = {l. \<exists>repo \<in> set (repositories st). language repo = Some l})
   \<and> (repositories st = [] \<longrightarrow> languages (runEffects h st) = languages st)
   \<and> repositories (runEffects h st) = repositories st"
proof -
  have "repositories (filterRepositories h st) = repositories st"
    and "languages (filterRepositories h st) = languages st"
    by (simp_all add: filterRepositories_def)
  then show ?thesis
    using uniqueLanguages_spec [of "repositories st"]
    by (simp add: runEffects_def languagesEffect_def)
qed

text \<open>
  The claim as written, including a fetch failure that empties the catalog, fails: after
  a successful load and then a rejected credential the catalog is empty and the list
  still holds the two languages of the old catalog.
\<close>

theorem C7_stale_languages_counterexample:
  "repositories ex_loaded = [ex_alpha, ex_beta, ex_gamma]
   \<and> languages ex_loaded = [''Go'', ''TypeScript'']
   \<and> repositories ex_fetch_failed = []
   \<and> languages ex_fetch_failed = [''Go'', ''TypeScript'']
   \<and> languages ex_fetch_failed \<noteq> []"
  by code_simp

theorem C7_languages_witness:
  "repositories (fetchRepositories ex_remote (ex_state [])) = [ex_alpha, ex_beta, ex_gamma]
   \<and> sorted (languages ex_loaded)
   \<and> set (languages ex_loaded) = {''Go'', ''TypeScript''}
   \<and> repositories ((ex_state [])\<lparr>languages := [''Rust'']\<rparr>) = []
   \<and> languages (runEffects ex_host ((ex_state [])\<lparr>languages := [''Rust'']\<rparr>)) = [''Rust'']"
proof -
  let ?st = "fetchRepositories ex_remote (ex_state [])"
  let ?empty = "(ex_state [])\<lparr>languages := [''Rust'']\<rparr>"
  have cat: "repositories ?st = [ex_alpha, ex_beta, ex_gamma]" by code_simp
  then have ne: "repositories ?st \<noteq> []" by simp
  have emp: "repositories ?empty = []" and old: "languages ?empty = [''Rust'']"
    by (simp_all add: ex_state_def)
  have langs: "{l. \<exists>repo \<in> set [ex_alpha, ex_beta, ex_gamma]. language repo = Some l} = {''Go'', ''TypeScript''}"
    by (auto simp: ex_alpha_def ex_beta_def ex_gamma_def ex_repo_def ex_api_def spread_selected_false_def)
  from C7_languages_follow_nonempty_catalog [of ?st ex_host] ne
  have "sorted (languages (runEffects ex_host ?st))"
    and "set (languages (runEffects ex_host ?st)) = {l. \<exists>repo \<in> set (repositories ?st). language repo = Some l}"
    by blast+
  moreover
  from C7_languages_follow_nonempty_catalog [of ?empty ex_host] emp
  have "languages (runEffects ex_host ?empty) = languages ?empty"
    by blast
  ultimately show ?thesis using cat langs emp old by (simp add: ex_loaded_def)
qed

section \<open>Filter engine: the sort\<close>

lemma mset_insert_js: "mset (insert_js c x ys) = add_mset x (mset ys)"
  by (induction ys) auto

lemma mset_sort_js: "mset (sort_js c xs) = mset xs"
  by (induction xs) (auto simp: sort_js_def mset_insert_js)

lemma sorted_insert_js:
  assumes anti: "\<And>a b. a \<in> S \<Longrightarrow> b \<in> S \<Longrightarrow> cmp_value (c a b) > 0 \<Longrightarrow> cmp_value (c b a) \<le> 0"
      and trans: "\<And>a b d. a \<in> S \<Longrightarrow> b \<in> S \<Longrightarrow> d \<in> S \<Longrightarrow>
                     cmp_value (c a b) \<le> 0 \<Longrightarrow> cmp_value (c b d) \<le> 0 \<Longrightarrow> cmp_value (c a d) \<le> 0"
      and "x \<in> S" "set ys \<subseteq> S"
      and "sorted_wrt (\<lambda>a b. cmp_value (c a b) \<le> 0) ys"
  shows "sorted_wrt (\<lambda>a b. cmp_value (c a b) \<le> 0) (insert_js c x ys)"
  using assms(3-)
proof (induction ys)
  case Nil
  then show ?case by simp
next
  case (Cons y ys)
  show ?case
  proof (cases "cmp_value (c x y) > 0")
    case True
    have yx: "cmp_value (c y x) \<le> 0"
      using anti [of x y] Cons.prems True by simp
    have "sorted_wrt (\<lambda>a b. cmp_value (c a b) \<le> 0) (insert_js c x ys)"
      using Cons.prems by (intro Cons.IH) auto
    moreover have "\<forall>z \<in> set (insert_js c x ys). cmp_value (c y z) \<le> 0"
      using yx Cons.prems by (auto simp: set_insert_js)
    ultimately show ?thesis using True by simp
  next
    case False
    then have xy: "cmp_value (c x y) \<le> 0" by simp
    have "\<forall>z \<in> set ys. cmp_value (c x z) \<le> 0"
    proof
      fix z assume z: "z \<in> set ys"
      with Cons.prems have "cmp_value (c y z) \<le> 0" by simp
      with xy show "cmp_value (c x z) \<le> 0"
        using trans [of x y z] Cons.prems z by auto
    qed
    with xy Cons.prems False show ?thesis by simp
  qed
qed

lemma sorted_sort_js:
  assumes anti: "\<And>a b. a \<in> S \<Longrightarrow> b \<in> S \<Longrightarrow> cmp_value (c a b) > 0 \<Longrightarrow> cmp_value (c b a) \<le> 0"
      and trans: "\<And>a b d. a \<in> S \<Longrightarrow> b \<in> S \<Longrightarrow> d \<in> S \<Longrightarrow>
                     cmp_value (c a b) \<le> 0 \<Longrightarrow> cmp_value (c b d) \<le> 0 \<Longrightarrow> cmp_value (c a d) \<le> 0"
      and "set xs \<subseteq> S"
  shows "sorted_wrt (\<lambda>a b. cmp_value (c a b) \<le> 0) (sort_js c xs)"
  using assms(3)
proof (induction xs)
  case Nil
  show ?case by (simp add: sort_js_def)
next
  case (Cons x xs)
  have "sorted_wrt (\<lambda>a b. cmp_value (c a b) \<le> 0) (insert_js c x (sort_js c xs))"
  proof (rule sorted_insert_js [where S = S])
    show "x \<in> S" using Cons.prems by simp
    show "set (sort_js c xs) \<subseteq> S" using Cons.prems by (simp add: set_sort_js)
    show "sorted_wrt (\<lambda>a b. cmp_value (c a b) \<le> 0) (sort_js c xs)"
      using Cons.prems by (intro Cons.IH) simp
  qed (erule (2) anti, erule (4) trans)
  then show ?case by (simp add: sort_js_def)
qed

lemma filter_insert_js:
  assumes "\<And>y. y \<in> set ys \<Longrightarrow> P x \<Longrightarrow> P y \<Longrightarrow> \<not> cmp_value (c x y) > 0"
  shows "filter P (insert_js c x ys) = filter P (x # ys)"
  using assms
proof (induction ys)
  case Nil
  show ?case by simp
next
  case (Cons y ys)
  have IH: "filter P (insert_js c x ys) = filter P (x # ys)"
    using Cons.prems by (intro Cons.IH) auto
  show ?case
  proof (cases "cmp_value (c x y) > 0")
    case True
    with Cons.prems [of y] have "\<not> (P x \<and> P y)" by auto
    with True IH show ?thesis by auto
  next
    case False
    then show ?thesis by simp
  qed
qed

lemma filter_sort_js:
  assumes "\<And>a b. a \<in> set xs \<Longrightarrow> b \<in> set xs \<Longrightarrow> P a \<Longrightarrow> P b \<Longrightarrow> \<not> cmp_value (c a b) > 0"
  shows "filter P (sort_js c xs) = filter P xs"
  using assms
proof (induction xs)
  case Nil
  show ?case by (simp add: sort_js_def)
next
  case (Cons x xs)
  have "filter P (insert_js c x (sort_js c xs)) = filter P (x # sort_js c xs)"
    using Cons.prems by (intro filter_insert_js) (auto simp: set_sort_js)
  moreover have "filter P (sort_js c xs) = filter P xs"
    using Cons.prems by (intro Cons.IH) auto
  ultimately show ?case by (simp add: sort_js_def)
qed

lemma cmp_time: "x \<noteq> None \<Longrightarrow> y \<noteq> None \<Longrightarrow> cmp_value (sub_time x y) = the x - the y"
  by (auto simp: cmp_value_def sub_time_def)

lemma compare_value:
  assumes "sort_valid h k repos" "a \<in> set repos" "b \<in> set repos"
  shows "cmp_value (compareRepos h k a b) =
           (case k of
              Name \<Rightarrow> localeCompare h (name a) (name b)
            | Created \<Rightarrow> the (getTime h (created_at b)) - the (getTime h (created_at a))
            | Updated \<Rightarrow> the (getTime h (updated_at b)) - the (getTime h (updated_at a))
            | Stars \<Rightarrow> stargazers_count b - stargazers_count a
            | Forks \<Rightarrow> forks_count b - forks_count a)"
proof (cases k)
  case Created
  with assms show ?thesis by (simp add: cmp_time)
next
  case Updated
  with assms show ?thesis by (simp add: cmp_time)
qed (simp_all add: cmp_value_def)

lemma compare_le_iff:
  assumes "sort_valid h k repos" "a \<in> set repos" "b \<in> set repos"
  shows "(cmp_value (compareRepos h k a b) \<le> 0) = in_order h k a b"
  unfolding compare_value [OF assms] by (cases k) simp_all

lemma in_order_total:
  assumes "sort_valid h k repos" "\<not> in_order h k a b"
  shows "in_order h k b a"
proof (cases k)
  case Name
  with assms have "consistent_compare (localeCompare h)"
    and "localeCompare h (name a) (name b) > 0" by simp_all
  then have "localeCompare h (name b) (name a) < 0"
    unfolding consistent_compare_def by blast
  with Name show ?thesis by simp
qed (use assms(2) in simp_all)

lemma in_order_trans:
  assumes "sort_valid h k repos" "in_order h k a b" "in_order h k b d"
  shows "in_order h k a d"
proof (cases k)
  case Name
  with assms have "consistent_compare (localeCompare h)"
    and "localeCompare h (name a) (name b) \<le> 0" and "localeCompare h (name b) (name d) \<le> 0"
    by simp_all
  then have "localeCompare h (name a) (name d) \<le> 0"
    unfolding consistent_compare_def by blast
  with Name show ?thesis by simp
qed (use assms(2,3) in simp_all)

lemma same_key_in_order:
  assumes "sort_valid h k repos" "same_key h k x a" "same_key h k x b"
  shows "in_order h k a b"
proof (cases k)
  case Name
  with assms have c: "consistent_compare (localeCompare h)"
    and xa: "localeCompare h (name x) (name a) = 0" and xb: "localeCompare h (name x) (name b) = 0"
    by simp_all
  from c xa have "\<not> localeCompare h (name a) (name x) > 0"
    unfolding consistent_compare_def by (metis less_irrefl)
  then have "localeCompare h (name a) (name x) \<le> 0" by simp
  moreover from xb have "localeCompare h (name x) (name b) \<le> 0" by simp
  ultimately have "localeCompare h (name a) (name b) \<le> 0"
    using c unfolding consistent_compare_def by blast
  with Name show ?thesis by simp
qed (use assms(2,3) in simp_all)

lemma compare_anti:
  assumes v: "sort_valid h k repos" and a: "a \<in> set repos" and b: "b \<in> set repos"
      and "cmp_value (compareRepos h k a b) > 0"
  shows "cmp_value (compareRepos h k b a) \<le> 0"
proof -
  from assms(4) have "\<not> in_order h k a b"
    unfolding compare_le_iff [OF v a b, symmetric] by simp
  from in_order_total [OF v this] show ?thesis
    unfolding compare_le_iff [OF v b a] .
qed

lemma compare_trans:
  assumes v: "sort_valid h k repos" and a: "a \<in> set repos" and b: "b \<in> set repos" and d: "d \<in> set repos"
      and "cmp_value (compareRepos h k a b) \<le> 0" "cmp_value (compareRepos h k b d) \<le> 0"
  shows "cmp_value (compareRepos h k a d) \<le> 0"
  using assms(5,6) in_order_trans [OF v, of a b d]
  unfolding compare_le_iff [OF v a b] compare_le_iff [OF v b d] compare_le_iff [OF v a d]
  by blast

lemma same_key_not_greater:
  assumes v: "sort_valid h k repos" and "x \<in> set repos" and a: "a \<in> set repos" and b: "b \<in> set repos"
      and "same_key h k x a" "same_key h k x b"
  shows "\<not> cmp_value (compareRepos h k a b) > 0"
proof -
  from same_key_in_order [OF v assms(5,6)] have "cmp_value (compareRepos h k a b) \<le> 0"
    unfolding compare_le_iff [OF v a b] .
  then show ?thesis by simp
qed

lemma sorted_derive:
  assumes v: "sort_valid h (sortBy f) repos"
  shows "sorted_wrt (in_order h (sortBy f)) (derive h repos term f)"
proof -
  let ?kept = "filter (passes term f) repos"
  let ?c = "compareRepos h (sortBy f)"
  have srt: "sorted_wrt (\<lambda>a b. cmp_value (?c a b) \<le> 0) (sort_js ?c ?kept)"
  proof (rule sorted_sort_js [where S = "set repos"])
    show "set ?kept \<subseteq> set repos" by auto
  qed (erule (2) compare_anti [OF v], erule (4) compare_trans [OF v])
  have sub: "set (sort_js ?c ?kept) \<subseteq> set repos"
    by (auto simp: set_sort_js)
  have "sorted_wrt (in_order h (sortBy f)) (sort_js ?c ?kept)"
  proof (rule sorted_wrt_mono_rel [OF _ srt])
    fix a b
    assume "a \<in> set (sort_js ?c ?kept)" "b \<in> set (sort_js ?c ?kept)"
      and le: "cmp_value (?c a b) \<le> 0"
    with sub have "a \<in> set repos" "b \<in> set repos" by blast+
    from compare_le_iff [OF v this] le show "in_order h (sortBy f) a b" by simp
  qed
  then show ?thesis by (simp only: derive_sorts_filtered)
qed

lemma stable_derive:
  assumes v: "sort_valid h (sortBy f) repos" and x: "x \<in> set repos"
  shows "filter (same_key h (sortBy f) x) (derive h repos term f)
           = filter (\<lambda>r. same_key h (sortBy f) x r \<and> passes term f r) repos"
proof -
  let ?kept = "filter (passes term f) repos"
  have "filter (same_key h (sortBy f) x) (sort_js (compareRepos h (sortBy f)) ?kept)
          = filter (same_key h (sortBy f) x) ?kept"
  proof (rule filter_sort_js)
    fix a b
    assume "a \<in> set ?kept" "b \<in> set ?kept" "same_key h (sortBy f) x a" "same_key h (sortBy f) x b"
    then show "\<not> cmp_value (compareRepos h (sortBy f) a b) > 0"
      using same_key_not_greater [OF v x, of a b] by simp
  qed
  then show ?thesis by (simp add: derive_sorts_filtered conj_commute)
qed

lemma sort_three_names:
  assumes c: "consistent_compare (localeCompare h)"
      and ab: "localeCompare h na nb < 0" and bc: "localeCompare h nb nc < 0"
      and k: "map name kept = [nb, na, nc]"
  shows "map name (sort_js (compareRepos h Name) kept) = [na, nb, nc]"
proof -
  from k obtain x y z where kept: "kept = [x, y, z]"
    and n: "name x = nb" "name y = na" "name z = nc"
    by (auto simp: map_eq_Cons_conv)
  from c ab bc have ac: "localeCompare h na nc \<le> 0"
    unfolding consistent_compare_def by (meson less_imp_le)
  from c ab have ba: "localeCompare h nb na > 0"
    unfolding consistent_compare_def by blast
  from kept n ac ba bc show ?thesis
    by (simp add: sort_js_def cmp_value_def)
qed

lemma sort_three_counters:
  assumes k: "map stargazers_count kept = [3, 1, 2]"
  shows "map stargazers_count (sort_js (compareRepos h Stars) kept) = [3, 2, 1]"
proof -
  from k obtain x y z where kept: "kept = [x, y, z]"
    and n: "stargazers_count x = 3" "stargazers_count y = 1" "stargazers_count z = 2"
    by (auto simp: map_eq_Cons_conv)
  then show ?thesis
    by (simp add: sort_js_def cmp_value_def)
qed

lemma ex_collating_host_consistent: "consistent_compare (localeCompare ex_collating_host)"
  unfolding consistent_compare_def ex_collating_host_def
  by (auto split: if_splits)

text \<open>
  Claim C6, as the code has it. For every catalog, query and filter configuration whose
  chosen key can be compared (the host's comparison of names is a consistent comparator,
  as the language standard requires of it; the timestamps parse as dates when a time key
  is chosen), the view is the sort applied to the items that passed matching and
  filtering, so it holds exactly those items; it is ordered by the chosen key: names
  ascending in the order of the host's \<open>localeCompare\<close>, creation time, last-modified
  time and the two popularity counters descending; and it is stable: the items that
  compare equal to any given item under the key stand in the view in the order they have
  in the catalog. Names \<open>b, a, c\<close> come out as \<open>a, b, c\<close> in every host that puts \<open>a\<close>
  before \<open>b\<close> before \<open>c\<close>, counters \<open>3, 1, 2\<close> as \<open>3, 2, 1\<close>.
\<close>

theorem C6_sort_after_filter_stable_by_key:
  assumes v: "sort_valid h (sortBy f) repos"
  shows "derive h repos term f
           = sort_js (compareRepos h (sortBy f)) (filter (passes term f) repos)
       \<and> mset (derive h repos term f) = mset (filter (passes term f) repos)
       \<and> sorted_wrt (in_order h (sortBy f)) (derive h repos term f)
       \<and> (\<forall>x \<in> set repos.
             filter (same_key h (sortBy f) x) (derive h repos term f)
               = filter (\<lambda>r. same_key h (sortBy f) x r \<and> passes term f r) repos)
       \<and> (sortBy f = Name \<and> map name (filter (passes term f) repos) = [''b'', ''a'', ''c'']
            \<and> localeCompare h ''a'' ''b'' < 0 \<and> localeCompare h ''b'' ''c'' < 0
          \<longrightarrow> map name (derive h repos term f) = [''a'', ''b'', ''c''])
       \<and> (sortBy f = Stars \<and> map stargazers_count (filter (passes term f) repos) = [3, 1, 2]
          \<longrightarrow> map stargazers_count (derive h repos term f) = [3, 2, 1])"
proof (intro conjI ballI impI)
  show "derive h repos term f = sort_js (compareRepos h (sortBy f)) (filter (passes term f) repos)"
    by (rule derive_sorts_filtered)
  show "mset (derive h repos term f) = mset (filter (passes term f) repos)"
    by (simp add: derive_sorts_filtered mset_sort_js)
  show "sorted_wrt (in_order h (sortBy f)) (derive h repos term f)"
    by (rule sorted_derive [OF v])
next
  fix x assume "x \<in> set repos"
  then show "filter (same_key h (sortBy f) x) (derive h repos term f)
               = filter (\<lambda>r. same_key h (sortBy f) x r \<and> passes term f r) repos"
    by (rule stable_derive [OF v])
next
  assume a: "sortBy f = Name \<and> map name (filter (passes term f) repos) = [''b'', ''a'', ''c'']
            \<and> localeCompare h ''a'' ''b'' < 0 \<and> localeCompare h ''b'' ''c'' < 0"
  with v have "consistent_compare (localeCompare h)" by simp
  with a show "map name (derive h repos term f) = [''a'', ''b'', ''c'']"
    by (simp add: derive_sorts_filtered sort_three_names)
next
  assume "sortBy f = Stars \<and> map stargazers_count (filter (passes term f) repos) = [3, 1, 2]"
  then show "map stargazers_count (derive h repos term f) = [3, 2, 1]"
    by (simp add: derive_sorts_filtered sort_three_counters)
qed

text \<open>
  The claim as written, with names in lexicographic order, fails: the names are ordered by
  the host's collation, which puts \<open>app\<close> before \<open>Build\<close>, while in the lexicographic
  order of the code units \<open>Build\<close> is the smaller string.
\<close>

theorem C6_name_order_counterexample:
  "map name (derive ex_collating_host ex_mixed_case [] (ex_filters\<lparr>sortBy := Name\<rparr>)) = [''app'', ''Build'']
   \<and> ''Build'' < ''app''
   \<and> \<not> sorted (map name (derive ex_collating_host ex_mixed_case [] (ex_filters\<lparr>sortBy := Name\<rparr>)))"
  by code_simp

text \<open>
  An instance in the same host; in \<open>ex_ties\<close> the items \<open>x\<close> and \<open>z\<close> have equal counters
  and keep their catalog order.
\<close>

theorem C6_sort_witness:
  "consistent_compare (localeCompare ex_collating_host)
   \<and> map name (derive ex_collating_host ex_named [] (ex_filters\<lparr>sortBy := Name\<rparr>)) = [''a'', ''b'', ''c'']
   \<and> map stargazers_count (derive ex_collating_host ex_named [] (ex_filters\<lparr>sortBy := Stars\<rparr>)) = [3, 2, 1]
   \<and> map name (derive ex_collating_host ex_ties [] (ex_filters\<lparr>sortBy := Stars\<rparr>)) = [''y'', ''x'', ''z'']
   \<and> filter (same_key ex_collating_host Stars (ex_repo 21 ''x'' False None None 5))
        (derive ex_collating_host ex_ties [] (ex_filters\<lparr>sortBy := Stars\<rparr>))
       = [ex_repo 21 ''x'' False None None 5, ex_repo 23 ''z'' False None None 5]"
proof -
  let ?byName = "ex_filters\<lparr>sortBy := Name\<rparr>"
  let ?byStars = "ex_filters\<lparr>sortBy := Stars\<rparr>"
  let ?x = "ex_repo 21 ''x'' False None None 5"
  have vn: "sort_valid ex_collating_host (sortBy ?byName) ex_named"
    by (simp add: ex_filters_def ex_collating_host_consistent)
  have vs: "sort_valid ex_collating_host (sortBy ?byStars) ex_named"
    and vt: "sort_valid ex_collating_host (sortBy ?byStars) ex_ties"
    by (simp_all add: ex_filters_def)
  have kn: "sortBy ?byName = Name" and ks: "sortBy ?byStars = Stars"
    by (simp_all add: ex_filters_def)
  have names: "map name (filter (passes [] ?byName) ex_named) = [''b'', ''a'', ''c'']"
    by code_simp
  have ab: "localeCompare ex_collating_host ''a'' ''b'' < 0" and bc: "localeCompare ex_collating_host ''b'' ''c'' < 0"
    by code_simp+
  have stars: "map stargazers_count (filter (passes [] ?byStars) ex_named) = [3, 1, 2]"
    by code_simp
  have x: "?x \<in> set ex_ties" by (simp add: ex_ties_def)
  have ties: "filter (\<lambda>r. same_key ex_collating_host (sortBy ?byStars) ?x r \<and> passes [] ?byStars r) ex_ties
                = [?x, ex_repo 23 ''z'' False None None 5]"
    by code_simp
  have order: "map name (derive ex_collating_host ex_ties [] ?byStars) = [''y'', ''x'', ''z'']"
    by code_simp
  from C6_sort_after_filter_stable_by_key [OF vn, of "[]"] kn names ab bc
  have "map name (derive ex_collating_host ex_named [] ?byName) = [''a'', ''b'', ''c'']"
    by blast
  moreover
  from C6_sort_after_filter_stable_by_key [OF vs, of "[]"] ks stars
  have "map stargazers_count (derive ex_collating_host ex_named [] ?byStars) = [3, 2, 1]"
    by blast
  moreover
  from C6_sort_after_filter_stable_by_key [OF vt, of "[]"] x
  have "filter (same_key ex_collating_host (sortBy ?byStars) ?x) (derive ex_collating_host ex_ties [] ?byStars)
          = filter (\<lambda>r. same_key ex_collating_host (sortBy ?byStars) ?x r \<and> passes [] ?byStars r) ex_ties"
    by blast
  ultimately show ?thesis
    using ex_collating_host_consistent ties order ks by simp
qed

section \<open>The earlier version issues the same requests\<close>

text \<open>
  The earlier version differs from the current one in the messages only: on the same
  state, with the confirmation given, it issues the same requests and leaves the same
  catalog, so what is proved above about requests, statuses and the catalog of
  \<open>confirmDelete\<close> and \<open>fetchRepositories\<close> holds for it as well.
\<close>

lemma fetchRepositories_legacy_agrees:
  "calls st = calls st' \<Longrightarrow>
     calls (fetchRepositories_legacy rem st) = calls (fetchRepositories rem st')
   \<and> (repositories (fetchRepositories_legacy rem st) = repositories (fetchRepositories rem st'))"
  by (simp add: fetchRepositories_legacy_def fetchRepositories_def fetch_failed_def Let_def
        split: sum.splits)

lemma deleteLoop_legacy_agrees:
  "calls st = calls st' \<Longrightarrow> repositories st = repositories st' \<Longrightarrow>
     calls (fst (deleteLoop_legacy rem u sel (st, sc, fc))) = calls (fst (deleteLoop rem u sel (st', sc, fc)))
   \<and> repositories (fst (deleteLoop_legacy rem u sel (st, sc, fc)))
       = repositories (fst (deleteLoop rem u sel (st', sc, fc)))
   \<and> snd (deleteLoop_legacy rem u sel (st, sc, fc)) = snd (deleteLoop rem u sel (st', sc, fc))"
proof (induction sel arbitrary: st st' sc fc)
  case Nil
  then show ?case by simp
next
  case (Cons repo rest)
  show ?case
  proof (cases "delete_repo rem (calls st') u (name repo)")
    case (Inl err)
    with Cons.prems show ?thesis
      by (simp add: Let_def) (rule Cons.IH, simp_all)
  next
    case (Inr v)
    with Cons.prems show ?thesis
      by simp (rule Cons.IH, simp_all)
  qed
qed

lemma handleDeleteSelected_legacy_agrees:
  assumes "filter is_selected (repositories st) \<noteq> []"
  shows "calls (handleDeleteSelected_legacy rem True st) = calls (confirmDelete rem st)
       \<and> repositories (handleDeleteSelected_legacy rem True st) = repositories (confirmDelete rem st)"
proof (cases "verifyTokenPermissions rem (calls st)")
  case (Inl err)
  with assms show ?thesis
    by (simp add: handleDeleteSelected_legacy_def confirmDelete_rejected [OF Inl])
next
  case (Inr username)
  let ?sel = "filter is_selected (repositories st)"
  let ?l = "st\<lparr>deleteInProgress := True, error := [], success := [], calls := calls st @ [GetUser]\<rparr>"
  let ?c = "st\<lparr>deleteConfirmationOpen := False, deleteInProgress := True,
                  error := [], success := [], calls := calls st @ [GetUser]\<rparr>"
  obtain a sc fc where L: "deleteLoop_legacy rem username ?sel (markPending ?l, 0, 0) = (a, sc, fc)"
    by (cases "deleteLoop_legacy rem username ?sel (markPending ?l, 0, 0)")
  obtain a' sc' fc' where C: "batchLoop rem username st = (a', sc', fc')"
    by (cases "batchLoop rem username st")
  have "calls (markPending ?l) = calls (markPending ?c)"
    and "repositories (markPending ?l) = repositories (markPending ?c)"
    by (simp_all add: markPending_def)
  from deleteLoop_legacy_agrees [OF this, of rem username ?sel 0 0] L C
  have eq: "calls a = calls a'" "repositories a = repositories a'" "sc = sc'" "fc = fc'"
    by (simp_all add: batchLoop_def)
  have leg: "handleDeleteSelected_legacy rem True st
      = (if fc > 0
         then a\<lparr>error := ''Failed to delete '' @ digits fc @ '' repositories. ''
                   @ digits sc @ '' repositories were deleted successfully.''\<rparr>
         else fetchRepositories_legacy rem
                (a\<lparr>success := ''All selected repositories were deleted successfully!''\<rparr>))
          \<lparr>deleteInProgress := False\<rparr>"
    using assms Inr L by (simp add: handleDeleteSelected_legacy_def)
  have cur: "confirmDelete rem st = (finishBatch rem (a', sc', fc'))\<lparr>deleteInProgress := False\<rparr>"
    by (simp add: confirmDelete_verified [OF Inr] C)
  show ?thesis
  proof (cases "fc > 0")
    case True
    with eq show ?thesis by (simp add: leg cur finishBatch_def)
  next
    case False
    have "calls (a\<lparr>success := ''All selected repositories were deleted successfully!''\<rparr>)
            = calls (a'\<lparr>success := ''All selected repositories were deleted successfully!''\<rparr>)"
      using eq by simp
    from fetchRepositories_legacy_agrees [OF this, of rem] False eq
    show ?thesis by (simp add: leg cur finishBatch_def)
  qed
qed

lemma handleDeleteSelected_legacy_nothing_selected:
  "filter is_selected (repositories st) = [] \<Longrightarrow>
     handleDeleteSelected_legacy rem confirmed st
       = st\<lparr>error := ''Please select repositories to delete''\<rparr>"
  by (simp add: handleDeleteSelected_legacy_def)

end
